theory Spec2Isabelle
  imports Main "HOL-Library.Word"
begin

unbundle bit_operations_syntax

section \<open>Unpacking cache (include/engine/unpacking\_cache.hpp)\<close>

text \<open>
  The header holds two definitions of the class under one include guard; the model is the
  first, the one the guard lets through, which keys the cache by the hash of
  \<open>(NodeID, NodeID, ExcludeIndex, Timestamp)\<close>.
\<close>

subsection \<open>Keys and durations\<close>

type_synonym NodeID = "32 word"
type_synonym ExcludeIndex = "8 word"
type_synonym Timestamp = "32 word"
type_synonym Key = "NodeID \<times> NodeID \<times> ExcludeIndex \<times> Timestamp"
type_synonym HashedKey = "64 word"
type_synonym EdgeDuration = "32 word"

text \<open>
  \<open>MAXIMAL_EDGE_DURATION\<close> comes from util/typedefs.hpp, which is not among the sources;
  the header's own comment gives \<open>EdgeDuration = std::int32_t\<close>, and the constant is
  the largest value of that type.
\<close>

definition MAXIMAL_EDGE_DURATION :: EdgeDuration where
  "MAXIMAL_EDGE_DURATION = 0x7FFFFFFF"

subsection \<open>The hash of a key\<close>

text \<open>
  \<open>HashKey\<close> calls \<open>std::hash\<close> on each component and folds the four results into a
  seed with \<open>boost::hash_combine\<close>. Both belong to the standard library and to Boost and
  differ between versions and platforms, so they are parameters of the model.
  \<open>NodeID\<close> and \<open>Timestamp\<close> are the same C++ type (a 32 bit unsigned), hence one
  \<open>std::hash\<close> for both.
\<close>

record hash_lib =
  std_hash_u32 :: "32 word \<Rightarrow> 64 word"
  std_hash_u8 :: "8 word \<Rightarrow> 64 word"
  hash_combine :: "64 word \<Rightarrow> 64 word \<Rightarrow> 64 word"

fun HashKey :: "hash_lib \<Rightarrow> Key \<Rightarrow> HashedKey" where
  "HashKey L (u, v, x, t) =
     (let h1 = std_hash_u32 L u;
          h2 = std_hash_u32 L v;
          h3 = std_hash_u8 L x;
          h4 = std_hash_u32 L t;
          seed = 0;
          seed = hash_combine L seed h1;
          seed = hash_combine L seed h2;
          seed = hash_combine L seed h3;
          seed = hash_combine L seed h4
      in seed)"

text \<open>
  One instance of the library, used for the concrete inputs below: \<open>std::hash\<close> of an
  unsigned integer is the integer itself (libstdc++, libc++), and \<open>hash_combine\<close> is
  Boost's generic \<open>seed ^= h + 0x9e3779b9 + (seed << 6) + (seed >> 2)\<close>. Boost 1.56 to 1.80
  selects another mix where \<open>std::size_t\<close> has 64 bits, and the keys that collide differ
  from one library to the next; that some keys collide does not (\<open>HashKey_not_inj\<close>
  below), and every general statement is about an arbitrary library.
\<close>

definition boost_hash_combine :: "64 word \<Rightarrow> 64 word \<Rightarrow> 64 word" where
  "boost_hash_combine seed h = seed XOR (h + 0x9e3779b9 + push_bit 6 seed + drop_bit 2 seed)"

definition identity_hash_lib :: hash_lib where
  "identity_hash_lib =
     \<lparr> std_hash_u32 = ucast, std_hash_u8 = ucast, hash_combine = boost_hash_combine \<rparr>"

subsection \<open>The LRU cache underneath\<close>

text \<open>
  Modelled from the spec: the bounded LRU cache of third\_party/compute\_detail/lru\_cache.hpp,
  which is not among the sources. The spec gives a bounded LRU with a capacity fixed at
  construction, a lookup that misses with no value, and an insertion that evicts the least
  recently used entry once the capacity is reached. The cache is a list of key/value pairs,
  most recently used first, with no key twice. As in Boost.Compute's \<open>lru_cache\<close>, which
  the include path names, inserting a key that is already stored changes nothing, and a
  lookup that hits moves the entry to the front. Inserting into a cache of capacity 0 would
  evict from an empty list, which has no defined behaviour: \<open>lru_insert\<close> returns
  \<open>None\<close> there.
\<close>

record ('k, 'v) lru_cache =
  m_capacity :: nat
  m_items :: "('k \<times> 'v) list"

definition lru_new :: "nat \<Rightarrow> ('k, 'v) lru_cache" where
  "lru_new capacity = \<lparr> m_capacity = capacity, m_items = [] \<rparr>"

definition lru_contains :: "('k, 'v) lru_cache \<Rightarrow> 'k \<Rightarrow> bool" where
  "lru_contains c k = (map_of (m_items c) k \<noteq> None)"

definition lru_evict :: "('k, 'v) lru_cache \<Rightarrow> ('k, 'v) lru_cache option" where
  "lru_evict c = (if m_items c = [] then None else Some (c\<lparr> m_items := butlast (m_items c) \<rparr>))"

definition lru_insert :: "('k, 'v) lru_cache \<Rightarrow> 'k \<Rightarrow> 'v \<Rightarrow> ('k, 'v) lru_cache option" where
  "lru_insert c k v =
     (if lru_contains c k then Some c
      else if length (m_items c) \<ge> m_capacity c then
        (case lru_evict c of
           None \<Rightarrow> None
         | Some c' \<Rightarrow> Some (c'\<lparr> m_items := (k, v) # m_items c' \<rparr>))
      else Some (c\<lparr> m_items := (k, v) # m_items c \<rparr>))"

definition lru_get :: "('k, 'v) lru_cache \<Rightarrow> 'k \<Rightarrow> 'v option \<times> ('k, 'v) lru_cache" where
  "lru_get c k =
     (case map_of (m_items c) k of
        None \<Rightarrow> (None, c)
      | Some v \<Rightarrow> (Some v, c\<lparr> m_items := (k, v) # filter (\<lambda>p. fst p \<noteq> k) (m_items c) \<rparr>))"

subsection \<open>UnpackingCache\<close>

type_synonym UnpackingCache = "(HashedKey, EdgeDuration) lru_cache"

definition UnpackingCache_default :: UnpackingCache where
  "UnpackingCache_default = lru_new 40329846"

definition UnpackingCache_sized :: "nat \<Rightarrow> UnpackingCache" where
  "UnpackingCache_sized cache_size = lru_new cache_size"

definition IsEdgeInCache :: "hash_lib \<Rightarrow> UnpackingCache \<Rightarrow> Key \<Rightarrow> bool" where
  "IsEdgeInCache L m_cache edge = (let hashed_edge = HashKey L edge in lru_contains m_cache hashed_edge)"

definition AddEdge :: "hash_lib \<Rightarrow> UnpackingCache \<Rightarrow> Key \<Rightarrow> EdgeDuration \<Rightarrow> UnpackingCache option" where
  "AddEdge L m_cache edge duration =
     (let hashed_edge = HashKey L edge in lru_insert m_cache hashed_edge duration)"

definition GetDuration :: "hash_lib \<Rightarrow> UnpackingCache \<Rightarrow> Key \<Rightarrow> EdgeDuration \<times> UnpackingCache" where
  "GetDuration L m_cache edge =
     (let hashed_edge = HashKey L edge;
          (duration, m_cache') = lru_get m_cache hashed_edge
      in (case duration of Some d \<Rightarrow> d | None \<Rightarrow> MAXIMAL_EDGE_DURATION, m_cache'))"


text \<open>
  A run of calls on one cache. \<open>IsEdgeInCache\<close> leaves the cache as it is and
  \<open>GetDuration\<close> only reorders it; \<open>AddEdge\<close> evicts the least recently used entry
  when the hash of its key is not stored and the cache is full.
\<close>

datatype cache_op = OpAddEdge Key EdgeDuration | OpGetDuration Key | OpIsEdgeInCache Key

fun apply_op :: "hash_lib \<Rightarrow> cache_op \<Rightarrow> UnpackingCache \<Rightarrow> UnpackingCache option" where
  "apply_op L (OpAddEdge edge duration) m_cache = AddEdge L m_cache edge duration"
| "apply_op L (OpGetDuration edge) m_cache = Some (snd (GetDuration L m_cache edge))"
| "apply_op L (OpIsEdgeInCache edge) m_cache = Some m_cache"

fun run_ops :: "hash_lib \<Rightarrow> cache_op list \<Rightarrow> UnpackingCache \<Rightarrow> UnpackingCache option" where
  "run_ops L [] m_cache = Some m_cache"
| "run_ops L (call # calls) m_cache =
     (case apply_op L call m_cache of
        None \<Rightarrow> None
      | Some m_cache' \<Rightarrow> run_ops L calls m_cache')"

fun evicts :: "hash_lib \<Rightarrow> cache_op \<Rightarrow> UnpackingCache \<Rightarrow> bool" where
  "evicts L (OpAddEdge edge duration) m_cache =
     (\<not> IsEdgeInCache L m_cache edge \<and> length (m_items m_cache) \<ge> m_capacity m_cache)"
| "evicts L (OpGetDuration edge) m_cache = False"
| "evicts L (OpIsEdgeInCache edge) m_cache = False"

fun no_eviction :: "hash_lib \<Rightarrow> cache_op list \<Rightarrow> UnpackingCache \<Rightarrow> bool" where
  "no_eviction L [] m_cache = True"
| "no_eviction L (call # calls) m_cache =
     (\<not> evicts L call m_cache \<and>
      (case apply_op L call m_cache of
         None \<Rightarrow> False
       | Some m_cache' \<Rightarrow> no_eviction L calls m_cache'))"

fun added_keys :: "cache_op list \<Rightarrow> Key list" where
  "added_keys [] = []"
| "added_keys (OpAddEdge edge duration # calls) = edge # added_keys calls"
| "added_keys (call # calls) = added_keys calls"


section \<open>The dataset publisher (src/storage/storage.cpp)\<close>

subsection \<open>Failures\<close>

text \<open>
  Every failure of the source is a thrown \<open>util::exception\<close>; the constructors name the
  throw sites and the failure classes of the collaborators.
\<close>

datatype exception =
    MissingRequired string
  | ChecksumMismatch string
  | CorruptArchive
  | IoError string
  | KeysExhausted
  | NoRegionsLeft string
  | SharedMemoryError

text \<open>
  A call either returns, throws, or never returns (a lock that is never granted, readers
  that never detach).
\<close>

datatype 'a outcome = Returns 'a | Throws exception | Blocks

subsection \<open>Blocks and layouts\<close>

text \<open>
  Modelled from the spec: \<open>Block\<close> and \<open>DataLayout\<close> (storage/shared\_datatype.hpp is not
  among the sources). A layout is the ordered list of its named blocks; \<open>SetBlock\<close> is an
  upsert: setting a name again replaces the block stored under it and keeps its place.
  \<open>readBlocks\<close> builds a block from the element count and the byte size of an entry.
\<close>

record Block =
  num_entries :: "64 word"
  byte_size :: "64 word"

type_synonym DataLayout = "(string \<times> Block) list"

fun SetBlock :: "string \<Rightarrow> Block \<Rightarrow> DataLayout \<Rightarrow> DataLayout" where
  "SetBlock nm b [] = [(nm, b)]"
| "SetBlock nm b ((n, b') # layout) =
     (if n = nm then (nm, b) # layout else (n, b') # SetBlock nm b layout)"

definition make_block_char :: "64 word \<Rightarrow> Block" where
  "make_block_char n = \<lparr> num_entries = n, byte_size = n \<rparr>"

subsection \<open>Archives\<close>

text \<open>
  Modelled from the spec: the archive index reader \<open>tar::FileReader\<close> (storage/tar.hpp is
  not among the sources). Opening an archive verifies its fingerprint and fails with
  \<open>CorruptArchive\<close> on a mismatch; \<open>List\<close> enumerates the entries with their names and
  byte sizes; \<open>ReadElementCount64\<close> reads the element count of an entry and may fail.
  An archive also carries the connectivity checksum that the readers of the edges, hsgr
  and mldgr artifacts return.
\<close>

record FileEntry =
  entry_name :: string
  entry_size :: "64 word"

record Archive =
  fingerprint_ok :: bool
  entries :: "FileEntry list"
  ReadElementCount64 :: "string \<Rightarrow> exception + 64 word"
  connectivity_checksum :: "32 word"

subsection \<open>readBlocks\<close>

text \<open>
  \<open>std::string::rfind\<close>: the position of the last occurrence of the pattern, or
  \<open>npos\<close> (here \<open>None\<close>) when there is none.
\<close>

definition rfind :: "string \<Rightarrow> string \<Rightarrow> nat option" where
  "rfind s pat =
     (let hits = filter (\<lambda>i. take (length pat) (drop i s) = pat)
                   (if length pat \<le> length s then [0 ..< Suc (length s - length pat)] else [])
      in if hits = [] then None else Some (last hits))"

fun readBlocks_entries :: "Archive \<Rightarrow> FileEntry list \<Rightarrow> DataLayout \<Rightarrow> exception + DataLayout" where
  "readBlocks_entries reader [] layout = Inr layout"
| "readBlocks_entries reader (entry # rest) layout =
     (let name_end = rfind (entry_name entry) ''.meta''
      in if name_end = None then
           (case ReadElementCount64 reader (entry_name entry) of
              Inl e \<Rightarrow> Inl e
            | Inr number_of_elements \<Rightarrow>
                readBlocks_entries reader rest
                  (SetBlock (entry_name entry)
                     \<lparr> num_entries = number_of_elements, byte_size = entry_size entry \<rparr> layout))
         else readBlocks_entries reader rest layout)"

definition readBlocks :: "Archive \<Rightarrow> DataLayout \<Rightarrow> exception + DataLayout" where
  "readBlocks reader layout =
     (if \<not> fingerprint_ok reader then Inl CorruptArchive
      else readBlocks_entries reader (entries reader) layout)"


subsection \<open>The shared region register\<close>

text \<open>
  Modelled from the spec: \<open>SharedRegionRegister\<close> (storage/shared\_datatype.hpp is not among
  the sources). A fixed-capacity array of entries, an empty slot carrying a zero-length
  name, plus a bitmap of the keys in use. \<open>ReserveKey\<close> hands out the lowest unused key and
  fails when none is left; \<open>ReleaseKey\<close> returns a key to the free pool; \<open>Find\<close> looks a
  name up and answers \<open>INVALID_REGION_ID\<close> (here \<open>None\<close>) when it is not registered;
  \<open>Register\<close> creates a new entry with timestamp 0 in the first empty slot; \<open>GetRegion\<close>
  gives the entry at an index.
\<close>

type_synonym ShmKey = "8 word"
type_synonym RegionID = nat

record SharedRegion =
  region_name :: string
  region_shm_key :: ShmKey
  timestamp :: "64 word"

record SharedRegionRegister =
  regions :: "SharedRegion list"
  shm_key_in_use :: "bool list"

definition INITIAL_TIMESTAMP :: "64 word" where
  "INITIAL_TIMESTAMP = 0"

definition empty_region :: SharedRegion where
  "empty_region = \<lparr> region_name = [], region_shm_key = 0, timestamp = 0 \<rparr>"

definition new_register :: "nat \<Rightarrow> SharedRegionRegister" where
  "new_register max_keys =
     \<lparr> regions = replicate max_keys empty_region, shm_key_in_use = replicate max_keys False \<rparr>"

fun first_index :: "('a \<Rightarrow> bool) \<Rightarrow> 'a list \<Rightarrow> nat option" where
  "first_index P [] = None"
| "first_index P (x # xs) = (if P x then Some 0 else map_option Suc (first_index P xs))"

definition IsEmpty :: "SharedRegion \<Rightarrow> bool" where
  "IsEmpty region = (region_name region = [])"

definition ReserveKey :: "SharedRegionRegister \<Rightarrow> exception + ShmKey \<times> SharedRegionRegister" where
  "ReserveKey reg =
     (case first_index (\<lambda>used. \<not> used) (shm_key_in_use reg) of
        None \<Rightarrow> Inl KeysExhausted
      | Some i \<Rightarrow> Inr (of_nat i, reg\<lparr> shm_key_in_use := (shm_key_in_use reg)[i := True] \<rparr>))"

definition ReleaseKey :: "ShmKey \<Rightarrow> SharedRegionRegister \<Rightarrow> SharedRegionRegister" where
  "ReleaseKey key reg = reg\<lparr> shm_key_in_use := (shm_key_in_use reg)[unat key := False] \<rparr>"

definition Find :: "SharedRegionRegister \<Rightarrow> string \<Rightarrow> RegionID option" where
  "Find reg nm = first_index (\<lambda>region. region_name region = nm) (regions reg)"

definition Register :: "SharedRegionRegister \<Rightarrow> string \<Rightarrow> ShmKey \<Rightarrow> exception + RegionID \<times> SharedRegionRegister" where
  "Register reg nm key =
     (case first_index IsEmpty (regions reg) of
        None \<Rightarrow> Inl (NoRegionsLeft nm)
      | Some i \<Rightarrow>
          Inr (i, reg\<lparr> regions := (regions reg)
                  [i := \<lparr> region_name = nm, region_shm_key = key, timestamp = INITIAL_TIMESTAMP \<rparr>] \<rparr>))"

definition GetRegion :: "SharedRegionRegister \<Rightarrow> RegionID \<Rightarrow> SharedRegion" where
  "GetRegion reg region_id = regions reg ! region_id"

subsection \<open>Shared memory, the monitor and the world a publisher runs in\<close>

text \<open>
  The calls a publisher makes on the operating system and on the register's key pool are
  recorded, in order, in a trace.
\<close>

datatype event =
    EvReserveKey ShmKey
  | EvReleaseKey ShmKey
  | EvRegionExists ShmKey bool
  | EvRemove ShmKey bool
  | EvCreate ShmKey nat
  | EvAttach ShmKey
  | EvWaitForDetach ShmKey
  | EvTimedLock nat bool
  | EvLock
  | EvUnlock
  | EvNotifyAll

text \<open>
  Modelled from the spec: \<open>SharedMemory\<close> (storage/shared\_memory.hpp is not among the
  sources). A segment is addressed by its key. \<open>Create\<close> (\<open>makeSharedMemory\<close> with a size)
  fails when a segment is live at the key; \<open>Attach\<close> (\<open>makeSharedMemory\<close> without a
  size) fails when there is none; \<open>Remove\<close> marks the segment for destruction, after which
  the key no longer addresses it, and can fail, leaving the segment in place;
  \<open>WaitForDetach\<close> returns once the readers of the segment have detached. A segment
  holds the layout whose encoding was copied to its start and the list of the artifacts read
  into it, each with the name it was read to and the blocks the views found for that name.
\<close>

record Segment =
  seg_size :: nat
  seg_layout :: DataLayout
  seg_payload :: "(string \<times> string \<times> DataLayout) list"

text \<open>
  What a publisher cannot decide is given from outside: after how many seconds the holder
  of the monitor mutex lets go (\<open>None\<close>: never), whether the readers of a segment ever
  detach, whether the operating system carries out a removal, and the two functions of
  the layout's own module that size an allocation (\<open>serialization::write\<close> and
  \<open>GetSizeOfLayout\<close>).
\<close>

record environment =
  mutex_free_after :: "nat option"
  readers_detach :: "ShmKey \<Rightarrow> bool"
  remove_succeeds :: "ShmKey \<Rightarrow> bool"
  encoded_layout_size :: "DataLayout \<Rightarrow> nat"
  GetSizeOfLayout :: "DataLayout \<Rightarrow> nat"

record world =
  shared_register :: SharedRegionRegister
  segments :: "ShmKey \<Rightarrow> Segment option"
  trace :: "event list"

definition emit :: "event list \<Rightarrow> world \<Rightarrow> world" where
  "emit es w = w\<lparr> trace := trace w @ es \<rparr>"

definition RegionExists :: "world \<Rightarrow> ShmKey \<Rightarrow> bool" where
  "RegionExists w key = (segments w key \<noteq> None)"

definition Remove :: "environment \<Rightarrow> ShmKey \<Rightarrow> world \<Rightarrow> world" where
  "Remove env key w =
     (if RegionExists w key \<and> remove_succeeds env key
      then emit [EvRemove key True] (w\<lparr> segments := (segments w)(key := None) \<rparr>)
      else emit [EvRemove key False] w)"

definition makeSharedMemory_create :: "ShmKey \<Rightarrow> nat \<Rightarrow> world \<Rightarrow> exception + world" where
  "makeSharedMemory_create key sz w =
     (if RegionExists w key then Inl SharedMemoryError
      else Inr (emit [EvCreate key sz]
             (w\<lparr> segments := (segments w)
                   (key \<mapsto> \<lparr> seg_size = sz, seg_layout = [], seg_payload = [] \<rparr>) \<rparr>)))"

definition makeSharedMemory_attach :: "ShmKey \<Rightarrow> world \<Rightarrow> exception + world" where
  "makeSharedMemory_attach key w =
     (if RegionExists w key then Inr (emit [EvAttach key] w) else Inl SharedMemoryError)"

definition timed_lock :: "environment \<Rightarrow> nat \<Rightarrow> bool" where
  "timed_lock env max_wait =
     (case mutex_free_after env of None \<Rightarrow> False | Some t \<Rightarrow> t \<le> max_wait)"


subsection \<open>setupRegion\<close>

text \<open>
  A handle names the segment it is attached to, the offset of the payload behind the encoded
  layout (\<open>None\<close> for \<open>nullptr\<close>), and the key.
\<close>

record RegionHandle =
  memory :: ShmKey
  data_ptr :: "nat option"
  shm_key :: ShmKey

definition setupRegion :: "environment \<Rightarrow> DataLayout \<Rightarrow> world \<Rightarrow> (exception + RegionHandle) \<times> world" where
  "setupRegion env layout w =
     (case ReserveKey (shared_register w) of
        Inl e \<Rightarrow> (Inl e, w)
      | Inr (key, reg) \<Rightarrow>
          (let w1 = emit [EvReserveKey key] (w\<lparr> shared_register := reg \<rparr>);
               w2 = (if RegionExists w1 key
                     then Remove env key (emit [EvRegionExists key True] w1)
                     else emit [EvRegionExists key False] w1);
               encoded_size = encoded_layout_size env layout;
               regions_size = encoded_size + GetSizeOfLayout env layout
           in case makeSharedMemory_create key regions_size w2 of
                Inl e \<Rightarrow> (Inl e, w2)
              | Inr w3 \<Rightarrow>
                  (Inr \<lparr> memory = key, data_ptr = Some encoded_size, shm_key = key \<rparr>,
                   w3\<lparr> segments := (segments w3)
                         (key \<mapsto> \<lparr> seg_size = regions_size, seg_layout = layout,
                                   seg_payload = [] \<rparr>) \<rparr>)))"

subsection \<open>swapData\<close>

text \<open>
  The body of the loop inside the critical section: register a new name, or swap the key of
  a known one and remember the old segment.
\<close>

definition swapRegion ::
  "string \<Rightarrow> RegionHandle \<Rightarrow> RegionHandle list \<Rightarrow> world \<Rightarrow> (exception + RegionHandle list) \<times> world"
where
  "swapRegion nm handle old_handles w =
     (case Find (shared_register w) nm of
        None \<Rightarrow>
          (case Register (shared_register w) nm (shm_key handle) of
             Inl e \<Rightarrow> (Inl e, w)
           | Inr (region_id, reg) \<Rightarrow> (Inr old_handles, w\<lparr> shared_register := reg \<rparr>))
      | Some region_id \<Rightarrow>
          (let shared_region = GetRegion (shared_register w) region_id
           in case makeSharedMemory_attach (region_shm_key shared_region) w of
                Inl e \<Rightarrow> (Inl e, w)
              | Inr w1 \<Rightarrow>
                  (let old_handle = \<lparr> memory = region_shm_key shared_region, data_ptr = None,
                                      shm_key = region_shm_key shared_region \<rparr>;
                       swapped = shared_region\<lparr> region_shm_key := shm_key handle,
                                                timestamp := timestamp shared_region + 1 \<rparr>;
                       reg = shared_register w1
                   in (Inr (old_handles @ [old_handle]),
                       w1\<lparr> shared_register :=
                             reg\<lparr> regions := (regions reg)[region_id := swapped] \<rparr> \<rparr>))))"

fun swapRegions ::
  "(string \<times> RegionHandle) list \<Rightarrow> RegionHandle list \<Rightarrow> world \<Rightarrow> (exception + RegionHandle list) \<times> world"
where
  "swapRegions [] old_handles w = (Inr old_handles, w)"
| "swapRegions ((nm, handle) # rest) old_handles w =
     (case swapRegion nm handle old_handles w of
        (Inl e, w1) \<Rightarrow> (Inl e, w1)
      | (Inr old_handles', w1) \<Rightarrow> swapRegions rest old_handles' w1)"

text \<open>The loop over the old handles after the critical section.\<close>

fun retire :: "environment \<Rightarrow> RegionHandle list \<Rightarrow> world \<Rightarrow> unit outcome \<times> world" where
  "retire env [] w = (Returns (), w)"
| "retire env (old_handle # rest) w =
     (let w1 = Remove env (shm_key old_handle) w
      in if readers_detach env (memory old_handle) then
           (let w2 = emit [EvWaitForDetach (memory old_handle)] w1;
                w3 = emit [EvReleaseKey (shm_key old_handle)]
                       (w2\<lparr> shared_register := ReleaseKey (shm_key old_handle) (shared_register w2) \<rparr>)
            in retire env rest w3)
         else (Blocks, w1))"

text \<open>
  The keys that a list of handles replaces in a register: for every name that is registered,
  the key its entry holds.
\<close>

definition replaced_keys :: "SharedRegionRegister \<Rightarrow> (string \<times> RegionHandle) list \<Rightarrow> ShmKey list" where
  "replaced_keys reg handles =
     concat (map (\<lambda>pair. case Find reg (fst pair) of
                            None \<Rightarrow> []
                          | Some region_id \<Rightarrow> [region_shm_key (GetRegion reg region_id)])
               handles)"

definition lock_event :: "int \<Rightarrow> event" where
  "lock_event max_wait = (if max_wait \<ge> 0 then EvTimedLock (nat max_wait) True else EvLock)"

definition swapData ::
  "environment \<Rightarrow> world \<Rightarrow> (string \<times> RegionHandle) list \<Rightarrow> int \<Rightarrow> bool outcome \<times> world"
where
  "swapData env w handles max_wait =
     (if max_wait \<ge> 0 \<and> \<not> timed_lock env (nat max_wait) then
        (Returns False,
         fold (\<lambda>pair. Remove env (shm_key (snd pair))) handles
           (emit [EvTimedLock (nat max_wait) False] w))
      else if max_wait < 0 \<and> mutex_free_after env = None then (Blocks, w)
      else
        (let w1 = emit [lock_event max_wait] w
         in case swapRegions handles [] w1 of
              (Inl e, w2) \<Rightarrow> (Throws e, emit [EvUnlock] w2)
            | (Inr old_handles, w2) \<Rightarrow>
                (case retire env old_handles (emit [EvUnlock, EvNotifyAll] w2) of
                   (Returns u, w3) \<Rightarrow> (Returns True, w3)
                 | (Throws e, w3) \<Rightarrow> (Throws e, w3)
                 | (Blocks, w3) \<Rightarrow> (Blocks, w3))))"


subsection \<open>The configuration and the files behind it\<close>

text \<open>
  \<open>config.GetPath(suffix)\<close> names a file that may or may not exist; \<open>files\<close> gives the
  archive at that path, \<open>None\<close> when the file does not exist. \<open>file_index_path\<close> is the
  absolute path of the \<open>.osrm.fileIndex\<close> file and \<open>weight_name\<close> what the profile
  properties give as the name of the weight.
\<close>

record StorageConfig =
  file_index_path :: string
  files :: "string \<Rightarrow> Archive option"
  weight_name :: string

definition REQUIRED :: bool where "REQUIRED = True"
definition OPTIONAL :: bool where "OPTIONAL = False"

fun readTarFiles :: "StorageConfig \<Rightarrow> (bool \<times> string) list \<Rightarrow> DataLayout \<Rightarrow> exception + DataLayout" where
  "readTarFiles config [] layout = Inr layout"
| "readTarFiles config (file # rest) layout =
     (case files config (snd file) of
        Some archive \<Rightarrow>
          (case readBlocks archive layout of
             Inl e \<Rightarrow> Inl e
           | Inr layout' \<Rightarrow> readTarFiles config rest layout')
      | None \<Rightarrow>
          (if fst file = REQUIRED then Inl (MissingRequired (snd file))
           else readTarFiles config rest layout))"

definition PopulateStaticLayout :: "StorageConfig \<Rightarrow> DataLayout \<Rightarrow> exception + DataLayout" where
  "PopulateStaticLayout config static_layout =
     (let absolute_file_index_path = file_index_path config;
          static_layout = SetBlock ''/common/rtree/file_index_path''
                            (make_block_char (of_nat (length absolute_file_index_path) + 1))
                            static_layout;
          tar_files = [
            (OPTIONAL, ''.osrm.cells''),
            (OPTIONAL, ''.osrm.partition''),
            (REQUIRED, ''.osrm.icd''),
            (REQUIRED, ''.osrm.properties''),
            (REQUIRED, ''.osrm.nbg_nodes''),
            (REQUIRED, ''.osrm.ebg_nodes''),
            (REQUIRED, ''.osrm.tls''),
            (REQUIRED, ''.osrm.tld''),
            (REQUIRED, ''.osrm.maneuver_overrides''),
            (REQUIRED, ''.osrm.edges''),
            (REQUIRED, ''.osrm.names''),
            (REQUIRED, ''.osrm.ramIndex'')]
      in readTarFiles config tar_files static_layout)"

definition PopulateUpdatableLayout :: "StorageConfig \<Rightarrow> DataLayout \<Rightarrow> exception + DataLayout" where
  "PopulateUpdatableLayout config updatable_layout =
     (let tar_files = [
            (OPTIONAL, ''.osrm.mldgr''),
            (OPTIONAL, ''.osrm.cell_metrics''),
            (OPTIONAL, ''.osrm.hsgr''),
            (REQUIRED, ''.osrm.datasource_names''),
            (REQUIRED, ''.osrm.geometry''),
            (REQUIRED, ''.osrm.turn_weight_penalties''),
            (REQUIRED, ''.osrm.turn_duration_penalties'')]
      in readTarFiles config tar_files updatable_layout)"

subsection \<open>Populating a segment\<close>

text \<open>
  Modelled from the spec: the readers of the single artifacts and the views they write
  through (storage/view\_factory.hpp and the files modules are not among the sources). Block
  names are hierarchical paths, and a view made for a name resolves, in the layout it is
  given, the blocks at or under that name. Reading an artifact through a view is recorded
  in the segment as the artifact, the name and the blocks the layout has for it; it fails
  with an I/O error when the file is not there. What has been read before a failure stays
  in the segment. The readers of the edges, hsgr and mldgr artifacts also return the
  connectivity checksum of the file.
\<close>

type_synonym reads = "(string \<times> string \<times> DataLayout) list"

definition view_blocks :: "DataLayout \<Rightarrow> string \<Rightarrow> DataLayout" where
  "view_blocks layout nm = filter (\<lambda>block. take (length nm) (fst block) = nm) layout"

definition readArtifact ::
  "StorageConfig \<Rightarrow> DataLayout \<Rightarrow> string \<Rightarrow> string \<Rightarrow> reads \<Rightarrow> (exception + unit) \<times> reads"
where
  "readArtifact config layout suffix block payload =
     (case files config suffix of
        None \<Rightarrow> (Inl (IoError suffix), payload)
      | Some archive \<Rightarrow> (Inr (), payload @ [(suffix, block, view_blocks layout block)]))"

fun readArtifacts ::
  "StorageConfig \<Rightarrow> DataLayout \<Rightarrow> (string \<times> string) list \<Rightarrow> reads \<Rightarrow> (exception + unit) \<times> reads"
where
  "readArtifacts config layout [] payload = (Inr (), payload)"
| "readArtifacts config layout ((suffix, block) # rest) payload =
     (case readArtifact config layout suffix block payload of
        (Inl e, payload') \<Rightarrow> (Inl e, payload')
      | (Inr u, payload') \<Rightarrow> readArtifacts config layout rest payload')"

definition checksum_of :: "StorageConfig \<Rightarrow> string \<Rightarrow> 32 word" where
  "checksum_of config suffix =
     (case files config suffix of None \<Rightarrow> 0 | Some archive \<Rightarrow> connectivity_checksum archive)"

text \<open>
  The optional graph artifacts: read when the file exists, and for hsgr and mldgr compared,
  after the read, with the checksum of the turns.
\<close>

definition readCheckedGraph ::
  "StorageConfig \<Rightarrow> DataLayout \<Rightarrow> string \<Rightarrow> string \<Rightarrow> 32 word \<Rightarrow> reads \<Rightarrow> (exception + unit) \<times> reads"
where
  "readCheckedGraph config layout suffix block turns_connectivity_checksum payload =
     (case files config suffix of
        None \<Rightarrow> (Inr (), payload)
      | Some archive \<Rightarrow>
          (let payload' = payload @ [(suffix, block, view_blocks layout block)];
               graph_connectivity_checksum = connectivity_checksum archive
           in if turns_connectivity_checksum \<noteq> graph_connectivity_checksum
              then (Inl (ChecksumMismatch suffix), payload')
              else (Inr (), payload')))"

definition readOptional ::
  "StorageConfig \<Rightarrow> DataLayout \<Rightarrow> string \<Rightarrow> string \<Rightarrow> reads \<Rightarrow> (exception + unit) \<times> reads"
where
  "readOptional config layout suffix block payload =
     (case files config suffix of
        None \<Rightarrow> (Inr (), payload)
      | Some archive \<Rightarrow> (Inr (), payload @ [(suffix, block, view_blocks layout block)]))"

definition and_then ::
  "(reads \<Rightarrow> (exception + unit) \<times> reads) \<Rightarrow> (reads \<Rightarrow> (exception + unit) \<times> reads) \<Rightarrow>
   reads \<Rightarrow> (exception + unit) \<times> reads"
where
  "and_then first second payload =
     (case first payload of
        (Inl e, payload') \<Rightarrow> (Inl e, payload')
      | (Inr u, payload') \<Rightarrow> second payload')"

definition PopulateStaticData_payload ::
  "StorageConfig \<Rightarrow> DataLayout \<Rightarrow> (exception + unit) \<times> reads"
where
  "PopulateStaticData_payload config static_layout =
     (let turns_connectivity_checksum = checksum_of config ''.osrm.edges'';
          metric_name = weight_name config
      in
     (and_then (readArtifacts config static_layout [
        (''.osrm.names'', ''/common/names''),
        (''.osrm.tld'', ''/common/turn_lanes''),
        (''.osrm.tls'', ''/common/turn_lanes''),
        (''.osrm.ebg_nodes'', ''/common/ebg_node_data''),
        (''.osrm.edges'', ''/common/turn_data''),
        (''.osrm.geometry'', ''/common/segment_data''),
        (''.osrm.datasource_names'', ''/common/data_sources_names''),
        (''.osrm.nbg_nodes'', ''/common/nbn_data''),
        (''.osrm.turn_weight_penalties'', ''/common/turn_penalty''),
        (''.osrm.turn_duration_penalties'', ''/common/turn_penalty''),
        (''.osrm.ramIndex'', ''/common/rtree''),
        (''.osrm.properties'', ''/common/properties''),
        (''.osrm.icd'', ''/common/intersection_bearings''),
        (''.osrm.icd'', ''/common/entry_classes'')])
     (and_then (readCheckedGraph config static_layout ''.osrm.hsgr'' (''/ch/metrics/'' @ metric_name)
        turns_connectivity_checksum)
     (and_then (readOptional config static_layout ''.osrm.partition'' ''/mld/multilevelpartition'')
     (and_then (readOptional config static_layout ''.osrm.cells'' ''/mld/cellstorage'')
     (and_then (readOptional config static_layout ''.osrm.cell_metrics'' (''/mld/metrics/'' @ metric_name))
     (and_then (readCheckedGraph config static_layout ''.osrm.mldgr'' ''/mld/multilevelgraph''
        turns_connectivity_checksum)
     (readArtifact config static_layout ''.osrm.maneuver_overrides'' ''/common/maneuver_overrides'')))))))
       [(''.osrm.fileIndex'', ''/common/rtree/file_index_path'',
         view_blocks static_layout ''/common/rtree/file_index_path'')])"

text \<open>
  \<open>PopulateUpdatableData\<close> is defined in the source and called from nowhere. Its
  \<open>turns_connectivity_checksum\<close> stays at its initial 0, and the profile properties are
  read into a local variable, through no view.
\<close>

definition PopulateUpdatableData_payload ::
  "StorageConfig \<Rightarrow> DataLayout \<Rightarrow> (exception + unit) \<times> reads"
where
  "PopulateUpdatableData_payload config updatable_layout =
     (let turns_connectivity_checksum = 0;
          metric_name = weight_name config
      in
     (and_then (readArtifacts config updatable_layout [
        (''.osrm.geometry'', ''/common/segment_data''),
        (''.osrm.datasource_names'', ''/common/data_sources_names''),
        (''.osrm.turn_weight_penalties'', ''/common/turn_penalty''),
        (''.osrm.turn_duration_penalties'', ''/common/turn_penalty'')])
     (and_then (\<lambda>payload. case files config ''.osrm.properties'' of
                   None \<Rightarrow> (Inl (IoError ''.osrm.properties''), payload)
                 | Some archive \<Rightarrow> (Inr (), payload))
     (and_then (readCheckedGraph config updatable_layout ''.osrm.hsgr'' (''/ch/metrics/'' @ metric_name)
        turns_connectivity_checksum)
     (and_then (readOptional config updatable_layout ''.osrm.cell_metrics'' (''/mld/metrics/'' @ metric_name))
     (readCheckedGraph config updatable_layout ''.osrm.mldgr'' ''/mld/multilevelgraph''
        turns_connectivity_checksum))))) [])"

definition write_payload :: "ShmKey \<Rightarrow> reads \<Rightarrow> world \<Rightarrow> world" where
  "write_payload key payload w =
     (case segments w key of
        None \<Rightarrow> w
      | Some seg \<Rightarrow> w\<lparr> segments := (segments w)(key \<mapsto> seg\<lparr> seg_payload := payload \<rparr>) \<rparr>)"

definition PopulateStaticData ::
  "StorageConfig \<Rightarrow> DataLayout \<Rightarrow> RegionHandle \<Rightarrow> world \<Rightarrow> (exception + unit) \<times> world"
where
  "PopulateStaticData config static_layout handle w =
     (case PopulateStaticData_payload config static_layout of
        (result, payload) \<Rightarrow> (result, write_payload (memory handle) payload w))"

definition PopulateUpdatableData ::
  "StorageConfig \<Rightarrow> DataLayout \<Rightarrow> RegionHandle \<Rightarrow> world \<Rightarrow> (exception + unit) \<times> world"
where
  "PopulateUpdatableData config updatable_layout handle w =
     (case PopulateUpdatableData_payload config updatable_layout of
        (result, payload) \<Rightarrow> (result, write_payload (memory handle) payload w))"

subsection \<open>Storage::Run\<close>

text \<open>
  The exclusive file lock that serialises publishers is taken before anything else and
  held to the end: the model is the one publisher that holds it. The request to lock memory
  pages only logs a warning when it fails. The register of the world is the one
  inside the monitor's control segment, which outlives the publisher. An exception leaves
  \<open>Run\<close> with the world as it is at the throw: the source has no handler.
\<close>

definition EXIT_SUCCESS :: int where "EXIT_SUCCESS = 0"

definition Run :: "environment \<Rightarrow> StorageConfig \<Rightarrow> world \<Rightarrow> int \<Rightarrow> string \<Rightarrow> int outcome \<times> world" where
  "Run env config w max_wait dataset_name =
     (case PopulateStaticLayout config [] of
        Inl e \<Rightarrow> (Throws e, w)
      | Inr static_layout \<Rightarrow>
     (case setupRegion env static_layout w of
        (Inl e, w1) \<Rightarrow> (Throws e, w1)
      | (Inr static_handle, w1) \<Rightarrow>
     (case PopulateStaticData config static_layout static_handle w1 of
        (Inl e, w2) \<Rightarrow> (Throws e, w2)
      | (Inr u, w2) \<Rightarrow>
     (case PopulateStaticLayout config [] of
        Inl e \<Rightarrow> (Throws e, w2)
      | Inr updatable_layout \<Rightarrow>
     (case setupRegion env updatable_layout w2 of
        (Inl e, w3) \<Rightarrow> (Throws e, w3)
      | (Inr updatable_handle, w3) \<Rightarrow>
     (case PopulateStaticData config updatable_layout updatable_handle w3 of
        (Inl e, w4) \<Rightarrow> (Throws e, w4)
      | (Inr u, w4) \<Rightarrow>
     (let handles = [(dataset_name @ ''/static'', static_handle),
                     (dataset_name @ ''/updatable'', updatable_handle)]
      in case swapData env w4 handles max_wait of
           (Returns swapped, w5) \<Rightarrow> (Returns EXIT_SUCCESS, w5)
         | (Throws e, w5) \<Rightarrow> (Throws e, w5)
         | (Blocks, w5) \<Rightarrow> (Blocks, w5))))))))"


subsection \<open>Inputs for the examples\<close>

text \<open>The specification's test for a sidecar entry: the name ends with the pattern.\<close>

definition ends_with :: "string \<Rightarrow> string \<Rightarrow> bool" where
  "ends_with s pat = (length pat \<le> length s \<and> drop (length s - length pat) s = pat)"

definition example_archive :: Archive where
  "example_archive =
     \<lparr> fingerprint_ok = True,
       entries = [\<lparr> entry_name = ''/common/names/blocks'', entry_size = 64 \<rparr>,
                  \<lparr> entry_name = ''/common/names/blocks.meta'', entry_size = 8 \<rparr>,
                  \<lparr> entry_name = ''/common/a.metadata'', entry_size = 16 \<rparr>],
       ReadElementCount64 = (\<lambda>n. Inr 4),
       connectivity_checksum = 0 \<rparr>"


text \<open>
  The archive of a metric whose name, taken from the weight name of the profile, is
  \<open>my.metadata\<close>: one data entry and its sidecar.
\<close>

definition metric_archive :: Archive where
  "metric_archive =
     \<lparr> fingerprint_ok = True,
       entries = [\<lparr> entry_name = ''/ch/metrics/my.metadata/weights'', entry_size = 40 \<rparr>,
                  \<lparr> entry_name = ''/ch/metrics/my.metadata/weights.meta'', entry_size = 8 \<rparr>],
       ReadElementCount64 = (\<lambda>n. Inr 10),
       connectivity_checksum = 0 \<rparr>"

text \<open>
  The order the source gives the three steps that retire an old segment, as a property of a
  trace: every release of a key is directly preceded by the completed wait for its
  segment, and that by its removal.
\<close>

definition release_after_wait :: "event list \<Rightarrow> bool" where
  "release_after_wait es = (\<forall>pre post key. es = pre @ EvReleaseKey key # post \<longrightarrow>
        (\<exists>pre' ok. pre = pre' @ [EvRemove key ok, EvWaitForDetach key]))"

text \<open>
  An environment in which the monitor mutex is free, readers detach and removals succeed;
  a world before the first publish of \<open>alpha/static\<close> (its segment allocated under key 0)
  and one before the second (the new segment under key 1).
\<close>

definition free_env :: environment where
  "free_env =
     \<lparr> mutex_free_after = Some 0,
       readers_detach = (\<lambda>key. True),
       remove_succeeds = (\<lambda>key. True),
       encoded_layout_size = (\<lambda>layout. 8 + 32 * length layout),
       GetSizeOfLayout = (\<lambda>layout. sum_list (map (\<lambda>b. unat (byte_size (snd b))) layout)) \<rparr>"

definition empty_segment :: Segment where
  "empty_segment = \<lparr> seg_size = 8, seg_layout = [], seg_payload = [] \<rparr>"

definition first_world :: world where
  "first_world =
     \<lparr> shared_register = \<lparr> regions = [empty_region, empty_region], shm_key_in_use = [True, False] \<rparr>,
       segments = [0 \<mapsto> empty_segment],
       trace = [] \<rparr>"

definition first_handles :: "(string \<times> RegionHandle) list" where
  "first_handles = [(''alpha/static'', \<lparr> memory = 0, data_ptr = Some 8, shm_key = 0 \<rparr>)]"

definition second_world :: world where
  "second_world =
     \<lparr> shared_register =
         \<lparr> regions = [\<lparr> region_name = ''alpha/static'', region_shm_key = 0, timestamp = 0 \<rparr>,
                      empty_region],
           shm_key_in_use = [True, True] \<rparr>,
       segments = [0 \<mapsto> empty_segment, 1 \<mapsto> empty_segment],
       trace = [] \<rparr>"

definition second_handles :: "(string \<times> RegionHandle) list" where
  "second_handles = [(''alpha/static'', \<lparr> memory = 1, data_ptr = Some 8, shm_key = 1 \<rparr>)]"

text \<open>
  A configuration in which every file exists: the artifacts of the updatable region share
  one archive, all others \<open>example_archive\<close>, and all connectivity checksums agree.
  \<open>mismatch_config\<close> differs in the checksum of the hsgr artifact. \<open>boot_world\<close> is a
  register of four keys with nothing published and no segment; in \<open>held_env\<close> another
  process holds the monitor mutex for good; \<open>stale_world\<close> has a segment left behind under
  key 0, and \<open>stubborn_env\<close> refuses every removal.
\<close>

definition updatable_archive :: Archive where
  "updatable_archive =
     \<lparr> fingerprint_ok = True,
       entries = [\<lparr> entry_name = ''/common/segment_data/index'', entry_size = 32 \<rparr>],
       ReadElementCount64 = (\<lambda>n. Inr 8),
       connectivity_checksum = 0 \<rparr>"

definition updatable_suffixes :: "string list" where
  "updatable_suffixes =
     [''.osrm.datasource_names'', ''.osrm.geometry'', ''.osrm.turn_weight_penalties'',
      ''.osrm.turn_duration_penalties'', ''.osrm.hsgr'', ''.osrm.mldgr'', ''.osrm.cell_metrics'']"

definition example_config :: StorageConfig where
  "example_config =
     \<lparr> file_index_path = ''/data/map.osrm.fileIndex'',
       files = (\<lambda>suffix. if suffix \<in> set updatable_suffixes then Some updatable_archive
                         else Some example_archive),
       weight_name = ''duration'' \<rparr>"

definition mismatch_config :: StorageConfig where
  "mismatch_config =
     example_config\<lparr> files := (files example_config)
        (''.osrm.hsgr'' \<mapsto> updatable_archive\<lparr> connectivity_checksum := 9 \<rparr>) \<rparr>"

definition boot_world :: world where
  "boot_world = \<lparr> shared_register = new_register 4, segments = Map.empty, trace = [] \<rparr>"

definition held_env :: environment where
  "held_env = free_env\<lparr> mutex_free_after := None \<rparr>"

definition example_static_layout :: DataLayout where
  "example_static_layout =
     [(''/common/rtree/file_index_path'', \<lparr> num_entries = 25, byte_size = 25 \<rparr>),
      (''/common/names/blocks'', \<lparr> num_entries = 4, byte_size = 64 \<rparr>)]"

definition example_payload :: reads where
  "example_payload =
     [(''.osrm.fileIndex'', ''/common/rtree/file_index_path'',
         [(''/common/rtree/file_index_path'', \<lparr> num_entries = 25, byte_size = 25 \<rparr>)]),
      (''.osrm.names'', ''/common/names'',
         [(''/common/names/blocks'', \<lparr> num_entries = 4, byte_size = 64 \<rparr>)]),
      (''.osrm.tld'', ''/common/turn_lanes'', []),
      (''.osrm.tls'', ''/common/turn_lanes'', []),
      (''.osrm.ebg_nodes'', ''/common/ebg_node_data'', []),
      (''.osrm.edges'', ''/common/turn_data'', []),
      (''.osrm.geometry'', ''/common/segment_data'', []),
      (''.osrm.datasource_names'', ''/common/data_sources_names'', []),
      (''.osrm.nbg_nodes'', ''/common/nbn_data'', []),
      (''.osrm.turn_weight_penalties'', ''/common/turn_penalty'', []),
      (''.osrm.turn_duration_penalties'', ''/common/turn_penalty'', []),
      (''.osrm.ramIndex'', ''/common/rtree'',
         [(''/common/rtree/file_index_path'', \<lparr> num_entries = 25, byte_size = 25 \<rparr>)]),
      (''.osrm.properties'', ''/common/properties'', []),
      (''.osrm.icd'', ''/common/intersection_bearings'', []),
      (''.osrm.icd'', ''/common/entry_classes'', []),
      (''.osrm.hsgr'', ''/ch/metrics/duration'', []),
      (''.osrm.partition'', ''/mld/multilevelpartition'', []),
      (''.osrm.cells'', ''/mld/cellstorage'', []),
      (''.osrm.cell_metrics'', ''/mld/metrics/duration'', []),
      (''.osrm.mldgr'', ''/mld/multilevelgraph'', []),
      (''.osrm.maneuver_overrides'', ''/common/maneuver_overrides'', [])]"

definition stale_world :: world where
  "stale_world = boot_world\<lparr> segments := [0 \<mapsto> empty_segment] \<rparr>"

definition stubborn_env :: environment where
  "stubborn_env = free_env\<lparr> remove_succeeds := (\<lambda>key. False) \<rparr>"

section \<open>Properties of the unpacking cache\<close>

lemma lru_insert_Some:
  "0 < m_capacity c \<Longrightarrow> \<exists>c'. lru_insert c k v = Some c'"
  by (auto simp: lru_insert_def lru_evict_def split: option.splits)

lemma map_of_butlast_None:
  "map_of xs k = None \<Longrightarrow> map_of (butlast xs) k = None"
  by (induction xs) (auto split: if_splits)

lemma lru_insert_lookup:
  assumes "lru_insert c k v = Some c'"
  shows "map_of (m_items c') k = (if lru_contains c k then map_of (m_items c) k else Some v)"
  using assms
  by (auto simp: lru_insert_def lru_evict_def lru_contains_def split: if_splits option.splits)

lemma lru_insert_other:
  assumes "lru_insert c k v = Some c'" and "k' \<noteq> k" and "map_of (m_items c) k' = None"
  shows "map_of (m_items c') k' = None"
  using assms
  by (auto simp: lru_insert_def lru_evict_def lru_contains_def map_of_butlast_None
           split: if_splits option.splits)

lemma GetDuration_hit:
  "map_of (m_items c) (HashKey L k) = Some d \<Longrightarrow> fst (GetDuration L c k) = d"
  by (simp add: GetDuration_def lru_get_def Let_def)

lemma GetDuration_miss:
  "map_of (m_items c) (HashKey L k) = None \<Longrightarrow> GetDuration L c k = (MAXIMAL_EDGE_DURATION, c)"
  by (simp add: GetDuration_def lru_get_def Let_def)

text \<open>
  A stored duration is never overwritten: a later \<open>AddEdge\<close> either leaves the answer
  for a key as it was or has evicted its entry, and \<open>GetDuration\<close> only reorders.
\<close>

lemma map_of_butlast_cases:
  "map_of (butlast xs) h = None \<or> map_of (butlast xs) h = map_of xs h"
  by (induction xs) (auto split: if_splits)

lemma map_of_filter_other:
  "h \<noteq> k \<Longrightarrow> map_of (filter (\<lambda>p. fst p \<noteq> k) xs) h = map_of xs h"
  by (induction xs) auto

lemma AddEdge_keeps_value:
  assumes "AddEdge L c k' d' = Some c'" and "map_of (m_items c) (HashKey L k) = Some d"
  shows "fst (GetDuration L c' k) = d \<or> \<not> IsEdgeInCache L c' k"
proof -
  let ?h = "HashKey L k" and ?h' = "HashKey L k'"
  from assms(1) have ins: "lru_insert c ?h' d' = Some c'" by (simp add: AddEdge_def)
  have "map_of (m_items c') ?h = Some d \<or> map_of (m_items c') ?h = None"
  proof (cases "lru_contains c ?h'")
    case True
    with ins assms(2) show ?thesis by (simp add: lru_insert_def)
  next
    case False
    then have ne: "?h \<noteq> ?h'" using assms(2) by (auto simp: lru_contains_def)
    from map_of_butlast_cases [of "m_items c" ?h] assms(2)
    have "map_of (butlast (m_items c)) ?h = None \<or> map_of (butlast (m_items c)) ?h = Some d"
      by auto
    with ins False ne assms(2) show ?thesis
      by (auto simp: lru_insert_def lru_evict_def split: if_splits option.splits)
  qed
  then show ?thesis
    by (auto simp: GetDuration_hit IsEdgeInCache_def lru_contains_def)
qed

lemma GetDuration_keeps_values:
  "map_of (m_items (snd (GetDuration L c k'))) h = map_of (m_items c) h"
  by (cases "h = HashKey L k'")
     (auto simp: GetDuration_def lru_get_def Let_def map_of_filter_other split: option.splits)

text \<open>
  Keys have 104 bits and hashes 64: whatever the library's hash functions are, two distinct
  keys share a hash.
\<close>

lemma HashKey_not_inj: "\<not> inj (HashKey L)"
proof
  assume inj: "inj (HashKey L)"
  have "card (UNIV :: Key set) = card (HashKey L ` UNIV)"
    using inj by (simp add: card_image)
  also have "\<dots> \<le> card (UNIV :: HashedKey set)"
    by (rule card_mono) simp_all
  finally show False by (simp add: card_word card_cartesian_product)
qed

lemma xor_left_cancel_word: "(s :: 64 word) XOR a = s XOR b \<Longrightarrow> a = b"
proof -
  assume "s XOR a = s XOR b"
  then have "s XOR (s XOR a) = s XOR (s XOR b)" by simp
  then show "a = b" by (simp add: xor.assoc [symmetric])
qed

lemma boost_hash_combine_inj: "inj (boost_hash_combine s)"
  by (auto simp: inj_def boost_hash_combine_def dest!: xor_left_cancel_word)

text \<open>
  With hash functions that are injective on a component, as those of
  \<open>identity_hash_lib\<close> are, two keys that differ in the version alone have different
  hashes.
\<close>

lemma HashKey_version_inj:
  assumes "inj (std_hash_u32 L)" and "\<And>s. inj (hash_combine L s)" and "t \<noteq> t'"
  shows "HashKey L (u, v, x, t) \<noteq> HashKey L (u, v, x, t')"
proof
  assume "HashKey L (u, v, x, t) = HashKey L (u, v, x, t')"
  then have "std_hash_u32 L t = std_hash_u32 L t'"
    using assms(2) by (simp add: Let_def inj_eq)
  then show False using assms(1,3) by (simp add: inj_eq)
qed

lemma example_collision:
  "HashKey identity_hash_lib (1, 100, 0, 7) = HashKey identity_hash_lib (2, 35, 0, 7)"
  by (simp add: identity_hash_lib_def boost_hash_combine_def)

lemma example_AddEdge:
  "AddEdge identity_hash_lib (UnpackingCache_sized 4) (1, 100, 0, 7) 42 =
     Some \<lparr> m_capacity = 4, m_items = [(706246303847057, 42)] \<rparr>"
  by (simp add: identity_hash_lib_def boost_hash_combine_def AddEdge_def UnpackingCache_sized_def
        lru_new_def lru_insert_def lru_contains_def)

lemma collision_exists: "\<exists>k1 k2. k1 \<noteq> k2 \<and> HashKey L k1 = HashKey L k2"
  using HashKey_not_inj [of L] unfolding inj_def by blast

text \<open>A run of calls that evicts nothing keeps every stored duration.\<close>

lemma apply_op_keeps:
  assumes "map_of (m_items c) h = Some d" and "\<not> evicts L call c"
    and "apply_op L call c = Some c'"
  shows "map_of (m_items c') h = Some d"
proof (cases call)
  case (OpAddEdge a v)
  with assms(3) have ins: "lru_insert c (HashKey L a) v = Some c'" by (simp add: AddEdge_def)
  show ?thesis
  proof (cases "lru_contains c (HashKey L a)")
    case True
    with ins assms(1) show ?thesis by (simp add: lru_insert_def)
  next
    case False
    with assms(1) have ne: "h \<noteq> HashKey L a" by (auto simp: lru_contains_def)
    from False assms(2) OpAddEdge have "\<not> length (m_items c) \<ge> m_capacity c"
      by (simp add: IsEdgeInCache_def)
    with ins False ne assms(1) show ?thesis by (auto simp: lru_insert_def)
  qed
next
  case (OpGetDuration a)
  with assms(1,3) show ?thesis using GetDuration_keeps_values [of L c a h] by auto
next
  case (OpIsEdgeInCache a)
  with assms(1,3) show ?thesis by simp
qed

lemma run_ops_keeps:
  "no_eviction L calls c \<Longrightarrow> map_of (m_items c) h = Some d \<Longrightarrow>
   \<exists>c'. run_ops L calls c = Some c' \<and> map_of (m_items c') h = Some d"
proof (induction calls arbitrary: c)
  case Nil
  then show ?case by simp
next
  case (Cons call calls)
  from Cons.prems(1) obtain c1 where step: "apply_op L call c = Some c1"
    and quiet: "\<not> evicts L call c" and rest: "no_eviction L calls c1"
    by (auto split: option.splits)
  from apply_op_keeps [OF Cons.prems(2) quiet step] have "map_of (m_items c1) h = Some d" .
  from Cons.IH [OF rest this] step show ?case by simp
qed

text \<open>A hash that is not stored stays out of the cache until a key with that hash is added.\<close>

lemma apply_op_absent:
  assumes "map_of (m_items c) h = None" and "\<forall>a \<in> set (added_keys [call]). HashKey L a \<noteq> h"
    and "apply_op L call c = Some c'"
  shows "map_of (m_items c') h = None"
proof (cases call)
  case (OpAddEdge a v)
  with assms(3) have ins: "lru_insert c (HashKey L a) v = Some c'" by (simp add: AddEdge_def)
  from assms(2) OpAddEdge have "h \<noteq> HashKey L a" by auto
  from lru_insert_other [OF ins this assms(1)] show ?thesis .
next
  case (OpGetDuration a)
  with assms(1,3) show ?thesis using GetDuration_keeps_values [of L c a h] by auto
next
  case (OpIsEdgeInCache a)
  with assms(1,3) show ?thesis by simp
qed

lemma added_keys_Cons: "set (added_keys (call # calls)) = set (added_keys [call]) \<union> set (added_keys calls)"
  by (cases call) auto

lemma run_ops_absent:
  "run_ops L calls c = Some c' \<Longrightarrow> map_of (m_items c) h = None \<Longrightarrow>
   \<forall>a \<in> set (added_keys calls). HashKey L a \<noteq> h \<Longrightarrow> map_of (m_items c') h = None"
proof (induction calls arbitrary: c)
  case Nil
  then show ?case by simp
next
  case (Cons call calls)
  from Cons.prems(1) obtain c1 where step: "apply_op L call c = Some c1"
    and rest: "run_ops L calls c1 = Some c'"
    by (auto split: option.splits)
  from Cons.prems(3) have one: "\<forall>a \<in> set (added_keys [call]). HashKey L a \<noteq> h"
    and others: "\<forall>a \<in> set (added_keys calls). HashKey L a \<noteq> h"
    unfolding added_keys_Cons [of call calls] by auto
  from apply_op_absent [OF Cons.prems(2) one step] have "map_of (m_items c1) h = None" .
  from Cons.IH [OF rest this others] show ?case .
qed

lemma AddEdge_twice:
  assumes "AddEdge L (UnpackingCache_sized 4) k 5 = Some c0"
  shows "AddEdge L c0 k 9 = Some c0" and "map_of (m_items c0) (HashKey L k) = Some 5"
proof -
  from assms have c0: "c0 = \<lparr> m_capacity = 4, m_items = [(HashKey L k, 5)] \<rparr>"
    by (simp add: AddEdge_def UnpackingCache_sized_def lru_new_def lru_insert_def lru_contains_def)
  show "AddEdge L c0 k 9 = Some c0"
    by (simp add: c0 AddEdge_def lru_insert_def lru_contains_def)
  show "map_of (m_items c0) (HashKey L k) = Some 5" by (simp add: c0)
qed

lemma AddEdge_empty:
  "AddEdge L (UnpackingCache_sized 4) k d = Some \<lparr> m_capacity = 4, m_items = [(HashKey L k, d)] \<rparr>"
  by (simp add: AddEdge_def UnpackingCache_sized_def lru_new_def lru_insert_def lru_contains_def)

text \<open>
  C10, as stated, fails: \<open>lru_insert\<close> leaves a stored entry as it is. On a cache that
  already holds the duration 5 under the shared hash, \<open>AddEdge(k1, 9)\<close> changes nothing and
  \<open>GetDuration(k2)\<close> returns 5, not the 9 just added. The first four facts are the run
  under \<open>identity_hash_lib\<close>; the last holds for every library.
\<close>

theorem colliding_key_stale_value_counterexample:
  "((1, 100, 0, 7) :: Key) \<noteq> (2, 35, 0, 7) \<and>
   HashKey identity_hash_lib (1, 100, 0, 7) = HashKey identity_hash_lib (2, 35, 0, 7) \<and>
   AddEdge identity_hash_lib \<lparr> m_capacity = 4, m_items = [(706246303847057, 5)] \<rparr> (1, 100, 0, 7) 9 =
     Some \<lparr> m_capacity = 4, m_items = [(706246303847057, 5)] \<rparr> \<and>
   fst (GetDuration identity_hash_lib \<lparr> m_capacity = 4, m_items = [(706246303847057, 5)] \<rparr>
          (2, 35, 0, 7)) = 5 \<and>
   (5 :: EdgeDuration) \<noteq> 9 \<and>
   (\<forall>L. \<exists>k1 k2 c0. k1 \<noteq> k2 \<and> HashKey L k1 = HashKey L k2 \<and>
        AddEdge L (UnpackingCache_sized 4) k1 5 = Some c0 \<and>
        AddEdge L c0 k1 9 = Some c0 \<and> fst (GetDuration L c0 k2) = 5)"
proof -
  have general: "\<exists>k1 k2 c0. k1 \<noteq> k2 \<and> HashKey L k1 = HashKey L k2 \<and>
        AddEdge L (UnpackingCache_sized 4) k1 5 = Some c0 \<and>
        AddEdge L c0 k1 9 = Some c0 \<and> fst (GetDuration L c0 k2) = 5" for L
  proof -
    obtain k1 k2 where k: "k1 \<noteq> k2" "HashKey L k1 = HashKey L k2"
      using collision_exists [of L] by blast
    let ?c0 = "\<lparr> m_capacity = 4, m_items = [(HashKey L k1, 5 :: EdgeDuration)] \<rparr>"
    have first: "AddEdge L (UnpackingCache_sized 4) k1 5 = Some ?c0" by (rule AddEdge_empty)
    from AddEdge_twice [OF first] have again: "AddEdge L ?c0 k1 9 = Some ?c0"
      and stored: "map_of (m_items ?c0) (HashKey L k2) = Some 5" using k(2) by simp_all
    from GetDuration_hit [OF stored] have "fst (GetDuration L ?c0 k2) = 5" .
    with k first again show ?thesis by blast
  qed
  have concrete: "((1, 100, 0, 7) :: Key) \<noteq> (2, 35, 0, 7) \<and>
   HashKey identity_hash_lib (1, 100, 0, 7) = HashKey identity_hash_lib (2, 35, 0, 7) \<and>
   AddEdge identity_hash_lib \<lparr> m_capacity = 4, m_items = [(706246303847057, 5)] \<rparr> (1, 100, 0, 7) 9 =
     Some \<lparr> m_capacity = 4, m_items = [(706246303847057, 5)] \<rparr> \<and>
   fst (GetDuration identity_hash_lib \<lparr> m_capacity = 4, m_items = [(706246303847057, 5)] \<rparr>
          (2, 35, 0, 7)) = 5 \<and>
   (5 :: EdgeDuration) \<noteq> 9"
    by (simp add: identity_hash_lib_def boost_hash_combine_def AddEdge_def lru_insert_def
          lru_contains_def GetDuration_def lru_get_def)
  from concrete general show ?thesis by blast
qed

text \<open>
  C10, amended. The cache stores an entry under the hash of its key, not under the key. For
  two distinct keys \<open>k1\<close> and \<open>k2\<close> with the same hash and a cache of positive capacity,
  after \<open>AddEdge(k1, d)\<close> the key \<open>k2\<close> is reported as cached and \<open>GetDuration(k2)\<close>
  returns what \<open>GetDuration(k1)\<close> returns, though \<open>k2\<close> was never added: that is
  \<open>d\<close> when nothing was stored under the hash before the call, and the duration stored
  before otherwise.
\<close>

theorem colliding_key_hits:
  assumes "k1 \<noteq> k2" and "HashKey L k1 = HashKey L k2" and "0 < m_capacity c"
  shows "\<exists>c'. AddEdge L c k1 d = Some c' \<and> IsEdgeInCache L c' k2 \<and>
           fst (GetDuration L c' k2) = fst (GetDuration L c' k1) \<and>
           (\<not> IsEdgeInCache L c k1 \<longrightarrow> fst (GetDuration L c' k2) = d) \<and>
           (\<forall>d0. map_of (m_items c) (HashKey L k1) = Some d0 \<longrightarrow>
                 fst (GetDuration L c' k2) = d0)"
proof -
  obtain c' where c': "lru_insert c (HashKey L k1) d = Some c'"
    using lru_insert_Some [OF assms(3)] by blast
  have look: "map_of (m_items c') (HashKey L k1) =
      (if lru_contains c (HashKey L k1) then map_of (m_items c) (HashKey L k1) else Some d)"
    by (rule lru_insert_lookup [OF c'])
  have "AddEdge L c k1 d = Some c'" using c' by (simp add: AddEdge_def)
  moreover have "IsEdgeInCache L c' k2"
    using look assms(2) by (auto simp: IsEdgeInCache_def lru_contains_def split: if_splits)
  moreover have "fst (GetDuration L c' k2) = fst (GetDuration L c' k1)"
    using assms(2) by (simp add: GetDuration_def)
  moreover have "\<not> IsEdgeInCache L c k1 \<longrightarrow> fst (GetDuration L c' k2) = d"
    using look assms(2) by (auto simp: IsEdgeInCache_def intro: GetDuration_hit)
  moreover have "\<forall>d0. map_of (m_items c) (HashKey L k1) = Some d0 \<longrightarrow>
      fst (GetDuration L c' k2) = d0"
    using look assms(2) by (auto simp: lru_contains_def intro: GetDuration_hit)
  ultimately show ?thesis by blast
qed

theorem colliding_key_hits_witness:
  "((1, 100, 0, 7) :: Key) \<noteq> (2, 35, 0, 7) \<and>
   HashKey identity_hash_lib (1, 100, 0, 7) = HashKey identity_hash_lib (2, 35, 0, 7) \<and>
   0 < m_capacity (UnpackingCache_sized 4) \<and>
   \<not> IsEdgeInCache identity_hash_lib (UnpackingCache_sized 4) (1, 100, 0, 7) \<and>
   (\<exists>c'. AddEdge identity_hash_lib (UnpackingCache_sized 4) (1, 100, 0, 7) 42 = Some c' \<and>
         IsEdgeInCache identity_hash_lib c' (2, 35, 0, 7) \<and>
         fst (GetDuration identity_hash_lib c' (2, 35, 0, 7)) = 42)"
proof -
  have ne: "((1, 100, 0, 7) :: Key) \<noteq> (2, 35, 0, 7)" by simp
  have cap: "0 < m_capacity (UnpackingCache_sized 4)"
    by (simp add: UnpackingCache_sized_def lru_new_def)
  have fresh: "\<not> IsEdgeInCache identity_hash_lib (UnpackingCache_sized 4) (1, 100, 0, 7)"
    by (simp add: IsEdgeInCache_def UnpackingCache_sized_def lru_new_def lru_contains_def)
  show ?thesis
    using colliding_key_hits [OF ne example_collision cap, of 42] ne example_collision cap fresh
    by blast
qed

text \<open>
  C9, as stated, fails in three ways. A key that was never added is answered with the
  duration of another key when the two share a hash: \<open>(2, 35, 0, 7)\<close> gets 42 and not
  the sentinel, and whatever the library, some pair of keys does the same. A key added a
  second time keeps its first duration: after \<open>AddEdge(k, 5)\<close> and \<open>AddEdge(k, 9)\<close> the
  answer is 5. And a cache of capacity 0 has no defined state after \<open>AddEdge\<close>.
\<close>

theorem never_added_key_hits_counterexample:
  "AddEdge identity_hash_lib (UnpackingCache_sized 4) (1, 100, 0, 7) 42 =
     Some \<lparr> m_capacity = 4, m_items = [(706246303847057, 42)] \<rparr> \<and>
   ((2, 35, 0, 7) :: Key) \<noteq> (1, 100, 0, 7) \<and>
   fst (GetDuration identity_hash_lib \<lparr> m_capacity = 4, m_items = [(706246303847057, 42)] \<rparr>
          (2, 35, 0, 7)) = 42 \<and>
   (42 :: EdgeDuration) \<noteq> MAXIMAL_EDGE_DURATION \<and>
   (\<forall>L. \<exists>k1 k2 c'. k1 \<noteq> k2 \<and> AddEdge L (UnpackingCache_sized 4) k1 42 = Some c' \<and>
        fst (GetDuration L c' k2) = 42) \<and>
   AddEdge identity_hash_lib (UnpackingCache_sized 4) (1, 2, 3, 7) 5 =
     Some \<lparr> m_capacity = 4, m_items = [(706246304519047, 5)] \<rparr> \<and>
   AddEdge identity_hash_lib \<lparr> m_capacity = 4, m_items = [(706246304519047, 5)] \<rparr> (1, 2, 3, 7) 9 =
     Some \<lparr> m_capacity = 4, m_items = [(706246304519047, 5)] \<rparr> \<and>
   fst (GetDuration identity_hash_lib \<lparr> m_capacity = 4, m_items = [(706246304519047, 5)] \<rparr>
          (1, 2, 3, 7)) = 5 \<and>
   (5 :: EdgeDuration) \<noteq> 9 \<and>
   AddEdge identity_hash_lib (UnpackingCache_sized 0) (1, 2, 3, 7) 5 = None"
proof -
  have general: "\<exists>k1 k2 c'. k1 \<noteq> k2 \<and> AddEdge L (UnpackingCache_sized 4) k1 42 = Some c' \<and>
        fst (GetDuration L c' k2) = 42" for L
  proof -
    obtain k1 k2 where k: "k1 \<noteq> k2" "HashKey L k1 = HashKey L k2"
      using collision_exists [of L] by blast
    let ?c' = "\<lparr> m_capacity = 4, m_items = [(HashKey L k1, 42 :: EdgeDuration)] \<rparr>"
    have "map_of (m_items ?c') (HashKey L k2) = Some 42" using k(2) by simp
    from GetDuration_hit [OF this] have "fst (GetDuration L ?c' k2) = 42" .
    with k(1) AddEdge_empty [of L k1 42] show ?thesis by blast
  qed
  have concrete: "AddEdge identity_hash_lib (UnpackingCache_sized 4) (1, 100, 0, 7) 42 =
     Some \<lparr> m_capacity = 4, m_items = [(706246303847057, 42)] \<rparr> \<and>
   ((2, 35, 0, 7) :: Key) \<noteq> (1, 100, 0, 7) \<and>
   fst (GetDuration identity_hash_lib \<lparr> m_capacity = 4, m_items = [(706246303847057, 42)] \<rparr>
          (2, 35, 0, 7)) = 42 \<and>
   (42 :: EdgeDuration) \<noteq> MAXIMAL_EDGE_DURATION"
    by (simp add: identity_hash_lib_def boost_hash_combine_def AddEdge_def UnpackingCache_sized_def
        lru_new_def lru_insert_def lru_contains_def GetDuration_def lru_get_def
        MAXIMAL_EDGE_DURATION_def)
  have again: "AddEdge identity_hash_lib (UnpackingCache_sized 4) (1, 2, 3, 7) 5 =
     Some \<lparr> m_capacity = 4, m_items = [(706246304519047, 5)] \<rparr> \<and>
   AddEdge identity_hash_lib \<lparr> m_capacity = 4, m_items = [(706246304519047, 5)] \<rparr> (1, 2, 3, 7) 9 =
     Some \<lparr> m_capacity = 4, m_items = [(706246304519047, 5)] \<rparr> \<and>
   fst (GetDuration identity_hash_lib \<lparr> m_capacity = 4, m_items = [(706246304519047, 5)] \<rparr>
          (1, 2, 3, 7)) = 5 \<and>
   (5 :: EdgeDuration) \<noteq> 9"
    by (simp add: identity_hash_lib_def boost_hash_combine_def AddEdge_def UnpackingCache_sized_def
        lru_new_def lru_insert_def lru_contains_def GetDuration_def lru_get_def)
  have zero: "AddEdge identity_hash_lib (UnpackingCache_sized 0) (1, 2, 3, 7) 5 = None"
    by (simp add: AddEdge_def UnpackingCache_sized_def lru_new_def lru_insert_def lru_contains_def
        lru_evict_def)
  from concrete general again zero show ?thesis by blast
qed

text \<open>
  C9, amended. For a cache of positive capacity that stores nothing under the hash of the
  key \<open>k\<close>: after \<open>AddEdge(k, d)\<close>, and after any further run of \<open>AddEdge\<close>,
  \<open>GetDuration\<close> and \<open>IsEdgeInCache\<close> calls that evicts nothing, \<open>GetDuration(k)\<close>
  returns \<open>d\<close>. And after any further run of calls, eviction or not, every key whose hash
  is neither stored before, nor the hash of \<open>k\<close>, nor the hash of a key added in the run
  gets the sentinel \<open>MAXIMAL_EDGE_DURATION\<close>, the cache staying as it is. This covers the
  same \<open>(u, v, x)\<close> under another version \<open>t'\<close> whenever the hashes differ, as
  \<open>HashKey_version_inj\<close> shows they do for library hash functions that are injective on a
  component.
\<close>

theorem GetDuration_after_AddEdge:
  assumes "0 < m_capacity c" and "\<not> IsEdgeInCache L c k"
  shows "\<exists>c'. AddEdge L c k d = Some c' \<and>
           (\<forall>calls. no_eviction L calls c' \<longrightarrow>
              (\<exists>c''. run_ops L calls c' = Some c'' \<and> fst (GetDuration L c'' k) = d)) \<and>
           (\<forall>calls c'' k'. run_ops L calls c' = Some c'' \<and> \<not> IsEdgeInCache L c k' \<and>
                 HashKey L k' \<noteq> HashKey L k \<and>
                 (\<forall>a \<in> set (added_keys calls). HashKey L a \<noteq> HashKey L k') \<longrightarrow>
                 GetDuration L c'' k' = (MAXIMAL_EDGE_DURATION, c''))"
proof -
  obtain c' where c': "lru_insert c (HashKey L k) d = Some c'"
    using lru_insert_Some [OF assms(1)] by blast
  have stored: "map_of (m_items c') (HashKey L k) = Some d"
    using lru_insert_lookup [OF c'] assms(2) by (simp add: IsEdgeInCache_def)
  have hit: "\<exists>c''. run_ops L calls c' = Some c'' \<and> fst (GetDuration L c'' k) = d"
    if "no_eviction L calls c'" for calls
  proof -
    from run_ops_keeps [OF that stored] obtain c'' where "run_ops L calls c' = Some c''"
      "map_of (m_items c'') (HashKey L k) = Some d" by blast
    then show ?thesis using GetDuration_hit by blast
  qed
  have miss: "GetDuration L c'' k' = (MAXIMAL_EDGE_DURATION, c'')"
    if run: "run_ops L calls c' = Some c''" and out: "\<not> IsEdgeInCache L c k'"
      and ne: "HashKey L k' \<noteq> HashKey L k"
      and others: "\<forall>a \<in> set (added_keys calls). HashKey L a \<noteq> HashKey L k'"
    for calls c'' k'
  proof -
    have "map_of (m_items c) (HashKey L k') = None"
      using out by (simp add: IsEdgeInCache_def lru_contains_def)
    then have "map_of (m_items c') (HashKey L k') = None"
      using lru_insert_other [OF c' ne] by simp
    from run_ops_absent [OF run this others] show ?thesis by (rule GetDuration_miss)
  qed
  have "AddEdge L c k d = Some c'" using c' by (simp add: AddEdge_def)
  with hit miss show ?thesis by blast
qed

theorem GetDuration_after_AddEdge_witness:
  "0 < m_capacity (UnpackingCache_sized 4) \<and>
   \<not> IsEdgeInCache identity_hash_lib (UnpackingCache_sized 4) (1, 2, 3, 7) \<and>
   AddEdge identity_hash_lib (UnpackingCache_sized 4) (1, 2, 3, 7) 5 =
     Some \<lparr> m_capacity = 4, m_items = [(706246304519047, 5)] \<rparr> \<and>
   no_eviction identity_hash_lib [OpAddEdge (5, 6, 0, 7) 11, OpGetDuration (1, 2, 3, 7)]
     \<lparr> m_capacity = 4, m_items = [(706246304519047, 5)] \<rparr> \<and>
   \<not> IsEdgeInCache identity_hash_lib (UnpackingCache_sized 4) (1, 2, 3, 8) \<and>
   HashKey identity_hash_lib (1, 2, 3, 8) \<noteq> HashKey identity_hash_lib (1, 2, 3, 7) \<and>
   HashKey identity_hash_lib (5, 6, 0, 7) \<noteq> HashKey identity_hash_lib (1, 2, 3, 8) \<and>
   (\<exists>c''. run_ops identity_hash_lib [OpAddEdge (5, 6, 0, 7) 11, OpGetDuration (1, 2, 3, 7)]
            \<lparr> m_capacity = 4, m_items = [(706246304519047, 5)] \<rparr> = Some c'' \<and>
          fst (GetDuration identity_hash_lib c'' (1, 2, 3, 7)) = 5 \<and>
          GetDuration identity_hash_lib c'' (1, 2, 3, 8) = (MAXIMAL_EDGE_DURATION, c''))"
proof -
  let ?calls = "[OpAddEdge (5, 6, 0, 7) 11, OpGetDuration (1, 2, 3, 7)]"
  let ?c' = "\<lparr> m_capacity = 4, m_items = [(706246304519047, 5 :: EdgeDuration)] \<rparr>"
  have cap: "0 < m_capacity (UnpackingCache_sized 4)"
    by (simp add: UnpackingCache_sized_def lru_new_def)
  have fresh: "\<not> IsEdgeInCache identity_hash_lib (UnpackingCache_sized 4) k" for k
    by (simp add: IsEdgeInCache_def UnpackingCache_sized_def lru_new_def lru_contains_def)
  have add: "AddEdge identity_hash_lib (UnpackingCache_sized 4) (1, 2, 3, 7) 5 = Some ?c'"
    by (simp add: identity_hash_lib_def boost_hash_combine_def AddEdge_def UnpackingCache_sized_def
        lru_new_def lru_insert_def lru_contains_def)
  have quiet: "no_eviction identity_hash_lib ?calls ?c'"
    by (simp add: identity_hash_lib_def boost_hash_combine_def AddEdge_def IsEdgeInCache_def
        lru_insert_def lru_contains_def GetDuration_def lru_get_def)
  have differ: "HashKey identity_hash_lib (1, 2, 3, 8) \<noteq> HashKey identity_hash_lib (1, 2, 3, 7)"
    "HashKey identity_hash_lib (5, 6, 0, 7) \<noteq> HashKey identity_hash_lib (1, 2, 3, 8)"
    by (simp_all add: identity_hash_lib_def boost_hash_combine_def)
  from GetDuration_after_AddEdge [OF cap fresh, of "(1, 2, 3, 7)" 5] add
  have keeps: "\<forall>calls. no_eviction identity_hash_lib calls ?c' \<longrightarrow>
       (\<exists>c''. run_ops identity_hash_lib calls ?c' = Some c'' \<and>
           fst (GetDuration identity_hash_lib c'' (1, 2, 3, 7)) = 5)"
    and misses: "\<forall>calls c'' k'. run_ops identity_hash_lib calls ?c' = Some c'' \<and>
         \<not> IsEdgeInCache identity_hash_lib (UnpackingCache_sized 4) k' \<and>
         HashKey identity_hash_lib k' \<noteq> HashKey identity_hash_lib (1, 2, 3, 7) \<and>
         (\<forall>a \<in> set (added_keys calls). HashKey identity_hash_lib a \<noteq> HashKey identity_hash_lib k') \<longrightarrow>
         GetDuration identity_hash_lib c'' k' = (MAXIMAL_EDGE_DURATION, c'')"
    by auto
  from keeps quiet obtain c'' where run: "run_ops identity_hash_lib ?calls ?c' = Some c''"
    and hit: "fst (GetDuration identity_hash_lib c'' (1, 2, 3, 7)) = 5" by blast
  have "\<forall>a \<in> set (added_keys ?calls). HashKey identity_hash_lib a \<noteq> HashKey identity_hash_lib (1, 2, 3, 8)"
    using differ(2) by simp
  with misses run fresh [of "(1, 2, 3, 8)"] differ(1)
  have miss: "GetDuration identity_hash_lib c'' (1, 2, 3, 8) = (MAXIMAL_EDGE_DURATION, c'')"
    by blast
  from cap fresh [of "(1, 2, 3, 7)"] fresh [of "(1, 2, 3, 8)"] add quiet differ run hit miss
  show ?thesis by blast
qed

section \<open>Properties of the publisher\<close>

subsection \<open>readBlocks\<close>

lemma rfind_Some_iff:
  "rfind s pat \<noteq> None \<longleftrightarrow> (\<exists>xs ys. s = xs @ pat @ ys)"
proof
  assume "rfind s pat \<noteq> None"
  then obtain i where i: "take (length pat) (drop i s) = pat"
    by (auto simp: rfind_def Let_def filter_empty_conv split: if_splits)
  have "s = take i s @ take (length pat) (drop i s) @ drop (length pat) (drop i s)"
    by (metis append_take_drop_id)
  then show "\<exists>xs ys. s = xs @ pat @ ys" using i by metis
next
  assume "\<exists>xs ys. s = xs @ pat @ ys"
  then obtain xs ys where s: "s = xs @ pat @ ys" by blast
  have "length pat \<le> length s" using s by simp
  moreover have "length xs \<in> set [0 ..< Suc (length s - length pat)]" using s by simp
  moreover have "take (length pat) (drop (length xs) s) = pat" using s by simp
  ultimately show "rfind s pat \<noteq> None"
    by (auto simp: rfind_def Let_def filter_empty_conv)
qed

lemma ends_with_rfind: "ends_with s pat \<Longrightarrow> rfind s pat \<noteq> None"
proof -
  assume e: "ends_with s pat"
  then have "s = take (length s - length pat) s @ pat @ []"
    by (metis append_Nil2 append_take_drop_id ends_with_def)
  then show ?thesis unfolding rfind_Some_iff by blast
qed

lemma map_of_SetBlock: "map_of (SetBlock n b l) = (map_of l)(n \<mapsto> b)"
  by (induction l) (auto simp: fun_eq_iff)

lemma readBlocks_entries_count:
  "readBlocks_entries A es l = Inr l' \<Longrightarrow> e \<in> set es \<Longrightarrow> rfind (entry_name e) ''.meta'' = None
   \<Longrightarrow> \<exists>c. ReadElementCount64 A (entry_name e) = Inr c"
  by (induction es arbitrary: l) (auto simp: Let_def split: if_splits sum.splits)

lemma readBlocks_entries_lookup:
  "readBlocks_entries A es l = Inr l' \<Longrightarrow>
   map_of l' n =
     (if rfind n ''.meta'' = None \<and> n \<in> entry_name ` set es
      then (case ReadElementCount64 A n of
              Inl e \<Rightarrow> None
            | Inr c \<Rightarrow> Some \<lparr> num_entries = c,
                  byte_size = entry_size (last (filter (\<lambda>e. entry_name e = n) es)) \<rparr>)
      else map_of l n)"
proof (induction es arbitrary: l)
  case Nil
  then show ?case by simp
next
  case (Cons e es)
  show ?case
  proof (cases "rfind (entry_name e) ''.meta'' = None")
    case False
    with Cons.prems have "readBlocks_entries A es l = Inr l'" by (simp add: Let_def)
    from Cons.IH [OF this] False show ?thesis
      by (cases "entry_name e = n") (auto split: sum.splits)
  next
    case True
    with Cons.prems obtain c where c: "ReadElementCount64 A (entry_name e) = Inr c"
      and rest: "readBlocks_entries A es
          (SetBlock (entry_name e) \<lparr> num_entries = c, byte_size = entry_size e \<rparr> l) = Inr l'"
      by (auto simp: Let_def split: sum.splits)
    from Cons.IH [OF rest] True c show ?thesis
      by (cases "entry_name e = n")
         (auto simp: map_of_SetBlock filter_empty_conv image_iff split: sum.splits)
  qed
qed

lemma last_filter_distinct:
  "distinct (map f xs) \<Longrightarrow> x \<in> set xs \<Longrightarrow> last (filter (\<lambda>y. f y = f x) xs) = x"
  by (induction xs) (auto simp: filter_empty_conv image_iff)

lemma readBlocks_total:
  "fingerprint_ok reader \<Longrightarrow>
   (\<forall>entry \<in> set (entries reader). \<exists>c. ReadElementCount64 reader (entry_name entry) = Inr c) \<Longrightarrow>
   \<exists>layout'. readBlocks reader layout = Inr layout'"
proof -
  have "(\<forall>entry \<in> set es. \<exists>c. ReadElementCount64 reader (entry_name entry) = Inr c) \<Longrightarrow>
     \<exists>layout'. readBlocks_entries reader es l = Inr layout'" for es l
    by (induction es arbitrary: l) (auto simp: Let_def)
  then show "fingerprint_ok reader \<Longrightarrow>
   (\<forall>entry \<in> set (entries reader). \<exists>c. ReadElementCount64 reader (entry_name entry) = Inr c) \<Longrightarrow>
   \<exists>layout'. readBlocks reader layout = Inr layout'"
    by (simp add: readBlocks_def)
qed


lemma example_archive_blocks:
  "readBlocks example_archive [] =
     Inr [(''/common/names/blocks'', \<lparr> num_entries = 4, byte_size = 64 \<rparr>)]"
  by (simp add: readBlocks_def example_archive_def Let_def rfind_def upt_rec)

text \<open>
  What the test of \<open>readBlocks\<close> amounts to, for every entry of an archive it reads: the
  entry is skipped exactly when \<open>.meta\<close> occurs somewhere in its name, and an entry that
  is not skipped gives a block under its name with the element count read from the archive
  and the byte size of the entry (of the last entry of that name, should the archive list a
  name twice). A name that ends with \<open>.meta\<close> is always skipped (\<open>ends_with_rfind\<close>).
\<close>

lemma readBlocks_blocks:
  assumes "readBlocks reader layout = Inr layout'"
  shows "\<forall>entry \<in> set (entries reader).
           (rfind (entry_name entry) ''.meta'' \<noteq> None \<longleftrightarrow>
              (\<exists>xs ys. entry_name entry = xs @ ''.meta'' @ ys)) \<and>
           (rfind (entry_name entry) ''.meta'' \<noteq> None \<longrightarrow>
              map_of layout' (entry_name entry) = map_of layout (entry_name entry)) \<and>
           (rfind (entry_name entry) ''.meta'' = None \<longrightarrow>
              (\<exists>c. ReadElementCount64 reader (entry_name entry) = Inr c \<and>
                   map_of layout' (entry_name entry) =
                     Some \<lparr> num_entries = c,
                            byte_size = entry_size (last (filter
                              (\<lambda>e. entry_name e = entry_name entry) (entries reader))) \<rparr>))"
proof
  fix entry
  assume mem: "entry \<in> set (entries reader)"
  from assms have run: "readBlocks_entries reader (entries reader) layout = Inr layout'"
    by (simp add: readBlocks_def split: if_splits)
  have look: "map_of layout' (entry_name entry) =
     (if rfind (entry_name entry) ''.meta'' = None
      then (case ReadElementCount64 reader (entry_name entry) of
              Inl e \<Rightarrow> None
            | Inr c \<Rightarrow> Some \<lparr> num_entries = c,
                  byte_size = entry_size (last (filter (\<lambda>e. entry_name e = entry_name entry)
                     (entries reader))) \<rparr>)
      else map_of layout (entry_name entry))"
    using readBlocks_entries_lookup [OF run, of "entry_name entry"] mem by simp
  have count: "rfind (entry_name entry) ''.meta'' = None \<Longrightarrow>
      \<exists>c. ReadElementCount64 reader (entry_name entry) = Inr c"
    using readBlocks_entries_count [OF run mem] .
  show "(rfind (entry_name entry) ''.meta'' \<noteq> None \<longleftrightarrow>
              (\<exists>xs ys. entry_name entry = xs @ ''.meta'' @ ys)) \<and>
           (rfind (entry_name entry) ''.meta'' \<noteq> None \<longrightarrow>
              map_of layout' (entry_name entry) = map_of layout (entry_name entry)) \<and>
           (rfind (entry_name entry) ''.meta'' = None \<longrightarrow>
              (\<exists>c. ReadElementCount64 reader (entry_name entry) = Inr c \<and>
                   map_of layout' (entry_name entry) =
                     Some \<lparr> num_entries = c,
                            byte_size = entry_size (last (filter
                              (\<lambda>e. entry_name e = entry_name entry) (entries reader))) \<rparr>))"
    using look count rfind_Some_iff [of "entry_name entry" "''.meta''"] by auto
qed

text \<open>
  C6. The source looks for \<open>.meta\<close> with \<open>rfind\<close> and keeps the position in
  \<open>name_end\<close>, but tests only whether there is one, not where: an entry whose name has
  \<open>.meta\<close> inside is dropped although it is no sidecar. The entry
  \<open>/ch/metrics/my.metadata/weights\<close> does not end with \<open>.meta\<close>, and the layout read
  from its archive is empty; \<open>/common/a.metadata\<close> is dropped from \<open>example_archive\<close>
  in the same way.
\<close>

theorem readBlocks_drops_entry_with_meta_inside:
  "\<not> ends_with ''/ch/metrics/my.metadata/weights'' ''.meta'' \<and>
   \<lparr> entry_name = ''/ch/metrics/my.metadata/weights'', entry_size = 40 \<rparr>
     \<in> set (entries metric_archive) \<and>
   ReadElementCount64 metric_archive ''/ch/metrics/my.metadata/weights'' = Inr 10 \<and>
   readBlocks metric_archive [] = Inr [] \<and>
   \<not> ends_with ''/common/a.metadata'' ''.meta'' \<and>
   \<lparr> entry_name = ''/common/a.metadata'', entry_size = 16 \<rparr> \<in> set (entries example_archive) \<and>
   readBlocks example_archive [] =
     Inr [(''/common/names/blocks'', \<lparr> num_entries = 4, byte_size = 64 \<rparr>)]"
proof -
  have "readBlocks metric_archive [] = Inr []"
    by (simp add: readBlocks_def metric_archive_def Let_def rfind_def upt_rec)
  then show ?thesis
    using example_archive_blocks
    by (simp add: ends_with_def example_archive_def metric_archive_def)
qed

subsection \<open>swapData: the trace\<close>

lemma trace_emit [simp]: "trace (emit es w) = trace w @ es"
  by (simp add: emit_def)

lemma trace_Remove: "\<exists>ok. trace (Remove env key w) = trace w @ [EvRemove key ok]"
  by (auto simp: Remove_def)

lemma release_after_wait_Nil: "release_after_wait []"
  by (simp add: release_after_wait_def)

lemma release_after_wait_single_Remove: "release_after_wait [EvRemove key ok]"
  by (auto simp: release_after_wait_def Cons_eq_append_conv)

lemma release_after_wait_triple:
  assumes "release_after_wait es"
  shows "release_after_wait (EvRemove key ok # EvWaitForDetach key # EvReleaseKey key # es)"
  unfolding release_after_wait_def
proof (intro allI impI)
  fix pre post k
  assume eq: "EvRemove key ok # EvWaitForDetach key # EvReleaseKey key # es = pre @ EvReleaseKey k # post"
  show "\<exists>pre' ok'. pre = pre' @ [EvRemove k ok', EvWaitForDetach k]"
  proof (cases "length pre \<le> 2")
    case True
    then have "pre = [] \<or> (\<exists>a. pre = [a]) \<or> (\<exists>a b. pre = [a, b])"
      by (cases pre; cases "tl pre"; cases "tl (tl pre)") auto
    with eq show ?thesis by auto
  next
    case False
    then obtain a b c pre2 where pre: "pre = a # b # c # pre2"
      by (cases pre; cases "tl pre"; cases "tl (tl pre)") auto
    with eq have "es = pre2 @ EvReleaseKey k # post" and abc: "a = EvRemove key ok" "b = EvWaitForDetach key" "c = EvReleaseKey key" by auto
    with assms obtain pre' ok' where "pre2 = pre' @ [EvRemove k ok', EvWaitForDetach k]"
      unfolding release_after_wait_def by blast
    then have "pre = (a # b # c # pre') @ [EvRemove k ok', EvWaitForDetach k]" using pre by simp
    then show ?thesis by blast
  qed
qed

lemma retire_trace:
  "retire env olds w = (r, w') \<Longrightarrow> \<forall>h \<in> set olds. memory h = shm_key h \<Longrightarrow>
     \<exists>es. trace w' = trace w @ es \<and> release_after_wait es \<and>
       (r = Returns () \<longrightarrow> (\<exists>oks. length oks = length olds \<and>
          es = concat (map (\<lambda>(h, ok). [EvRemove (shm_key h) ok, EvWaitForDetach (shm_key h),
                 EvReleaseKey (shm_key h)]) (zip olds oks))))"
proof (induction olds arbitrary: w)
  case Nil
  then show ?case by (auto simp: release_after_wait_Nil)
next
  case (Cons h olds)
  obtain ok where ok: "trace (Remove env (shm_key h) w) = trace w @ [EvRemove (shm_key h) ok]"
    using trace_Remove by blast
  have mem: "memory h = shm_key h" using Cons.prems(2) by simp
  show ?case
  proof (cases "readers_detach env (memory h)")
    case False
    with Cons.prems(1) have "w' = Remove env (shm_key h) w" and "r = Blocks"
      by (auto simp: Let_def)
    with ok show ?thesis by (auto simp: release_after_wait_single_Remove)
  next
    case True
    let ?w3 = "emit [EvReleaseKey (shm_key h)]
        ((emit [EvWaitForDetach (memory h)] (Remove env (shm_key h) w))
           \<lparr> shared_register := ReleaseKey (shm_key h)
               (shared_register (emit [EvWaitForDetach (memory h)] (Remove env (shm_key h) w))) \<rparr>)"
    from True Cons.prems(1) have rest: "retire env olds ?w3 = (r, w')" by (simp add: Let_def)
    from Cons.IH [OF rest] Cons.prems(2) obtain es where
      es: "trace w' = trace ?w3 @ es" "release_after_wait es"
        "r = Returns () \<longrightarrow> (\<exists>oks. length oks = length olds \<and>
          es = concat (map (\<lambda>(h, ok). [EvRemove (shm_key h) ok, EvWaitForDetach (shm_key h),
                 EvReleaseKey (shm_key h)]) (zip olds oks)))"
      by auto
    have t3: "trace ?w3 = trace w @ [EvRemove (shm_key h) ok, EvWaitForDetach (shm_key h), EvReleaseKey (shm_key h)]"
      using ok mem by simp
    let ?es = "EvRemove (shm_key h) ok # EvWaitForDetach (shm_key h) # EvReleaseKey (shm_key h) # es"
    have "trace w' = trace w @ ?es" using es(1) t3 by simp
    moreover have "release_after_wait ?es" using es(2) by (rule release_after_wait_triple)
    moreover have "r = Returns () \<longrightarrow> (\<exists>oks. length oks = length (h # olds) \<and>
          ?es = concat (map (\<lambda>(h, ok). [EvRemove (shm_key h) ok, EvWaitForDetach (shm_key h),
                 EvReleaseKey (shm_key h)]) (zip (h # olds) oks)))"
    proof
      assume "r = Returns ()"
      with es(3) obtain oks where "length oks = length olds" "es = concat (map (\<lambda>(h, ok). [EvRemove (shm_key h) ok, EvWaitForDetach (shm_key h),
                 EvReleaseKey (shm_key h)]) (zip olds oks))" by blast
      then have "length (ok # oks) = length (h # olds) \<and> ?es = concat (map (\<lambda>(h, ok). [EvRemove (shm_key h) ok, EvWaitForDetach (shm_key h),
                 EvReleaseKey (shm_key h)]) (zip (h # olds) (ok # oks)))" by simp
      then show "\<exists>oks. length oks = length (h # olds) \<and>
          ?es = concat (map (\<lambda>(h, ok). [EvRemove (shm_key h) ok, EvWaitForDetach (shm_key h),
                 EvReleaseKey (shm_key h)]) (zip (h # olds) oks))" by blast
    qed
    ultimately show ?thesis by blast
  qed
qed

lemma release_after_wait_none:
  assumes that: "\<And>k. EvReleaseKey k \<notin> set es"
  shows "release_after_wait es"
  unfolding release_after_wait_def
proof (intro allI impI)
  fix pre post key
  assume "es = pre @ EvReleaseKey key # post"
  then have "EvReleaseKey key \<in> set es" by simp
  then show "\<exists>pre' ok. pre = pre' @ [EvRemove key ok, EvWaitForDetach key]"
    using that by blast
qed

lemma release_after_wait_append:
  assumes "\<And>k. EvReleaseKey k \<notin> set ps" and "release_after_wait es"
  shows "release_after_wait (ps @ es)"
  unfolding release_after_wait_def
proof (intro allI impI)
  fix pre post key
  assume "ps @ es = pre @ EvReleaseKey key # post"
  then obtain us where "(ps = pre @ us \<and> us @ es = EvReleaseKey key # post) \<or>
       (ps @ us = pre \<and> es = us @ EvReleaseKey key # post)"
    by (auto simp: append_eq_append_conv2)
  then show "\<exists>pre' ok. pre = pre' @ [EvRemove key ok, EvWaitForDetach key]"
  proof
    assume a: "ps = pre @ us \<and> us @ es = EvReleaseKey key # post"
    show ?thesis
    proof (cases us)
      case Nil
      with a have "es = [] @ EvReleaseKey key # post" by simp
      with assms(2) show ?thesis unfolding release_after_wait_def by blast
    next
      case (Cons u us')
      with a have "EvReleaseKey key \<in> set ps" by auto
      with assms(1) show ?thesis by blast
    qed
  next
    assume b: "ps @ us = pre \<and> es = us @ EvReleaseKey key # post"
    with assms(2) obtain pre' ok where "us = pre' @ [EvRemove key ok, EvWaitForDetach key]"
      unfolding release_after_wait_def by blast
    with b have "pre = (ps @ pre') @ [EvRemove key ok, EvWaitForDetach key]" by auto
    then show ?thesis by blast
  qed
qed

lemma swapRegion_Inl: "swapRegion nm h olds w = (Inl e, w') \<Longrightarrow> w' = w"
  by (auto simp: swapRegion_def Let_def split: option.splits sum.splits prod.splits)

lemma swapRegion_Inr:
  "swapRegion nm h olds w = (Inr olds', w') \<Longrightarrow>
     (olds' = olds \<and> trace w' = trace w) \<or>
     (\<exists>k. olds' = olds @ [\<lparr> memory = k, data_ptr = None, shm_key = k \<rparr>] \<and>
          trace w' = trace w @ [EvAttach k])"
  by (auto simp: swapRegion_def Let_def makeSharedMemory_attach_def
           split: option.splits sum.splits prod.splits if_splits)

lemma swapRegions_Inr:
  "swapRegions hs olds w = (Inr olds', w') \<Longrightarrow>
   \<exists>new. olds' = olds @ new \<and> (\<forall>h \<in> set new. memory h = shm_key h) \<and>
         trace w' = trace w @ map (\<lambda>h. EvAttach (shm_key h)) new"
proof (induction hs arbitrary: olds w)
  case Nil
  then have "olds' = olds @ []" and "trace w' = trace w @ map (\<lambda>h. EvAttach (shm_key h)) []"
    by simp_all
  then show ?case by (intro exI [of _ "[]"]) simp
next
  case (Cons p hs)
  obtain nm handle where p: "p = (nm, handle)" by (cases p)
  obtain r1 w1 where step: "swapRegion nm handle olds w = (r1, w1)" by (cases "swapRegion nm handle olds w")
  with Cons.prems p obtain olds1 where r1: "r1 = Inr olds1" and rest: "swapRegions hs olds1 w1 = (Inr olds', w')"
    by (cases r1) auto
  from Cons.IH [OF rest] obtain new where new: "olds' = olds1 @ new" "\<forall>h \<in> set new. memory h = shm_key h"
    "trace w' = trace w1 @ map (\<lambda>h. EvAttach (shm_key h)) new" by blast
  from swapRegion_Inr [OF step [unfolded r1]] show ?case
  proof
    assume "olds1 = olds \<and> trace w1 = trace w"
    with new show ?thesis by auto
  next
    assume "\<exists>k. olds1 = olds @ [\<lparr> memory = k, data_ptr = None, shm_key = k \<rparr>] \<and> trace w1 = trace w @ [EvAttach k]"
    then obtain k where k: "olds1 = olds @ [\<lparr> memory = k, data_ptr = None, shm_key = k \<rparr>]" "trace w1 = trace w @ [EvAttach k]" by blast
    let ?new = "\<lparr> memory = k, data_ptr = None, shm_key = k \<rparr> # new"
    have "olds' = olds @ ?new" using new(1) k(1) by simp
    moreover have "\<forall>h \<in> set ?new. memory h = shm_key h" using new(2) by simp
    moreover have "trace w' = trace w @ map (\<lambda>h. EvAttach (shm_key h)) ?new" using new(3) k(2) by simp
    ultimately show ?thesis by blast
  qed
qed

lemma swapRegions_Inl:
  "swapRegions hs olds w = (Inl e, w') \<Longrightarrow>
   \<exists>es. trace w' = trace w @ es \<and> (\<forall>k. EvReleaseKey k \<notin> set es)"
proof (induction hs arbitrary: olds w)
  case Nil
  then show ?case by simp
next
  case (Cons p hs)
  obtain nm handle where p: "p = (nm, handle)" by (cases p)
  obtain r1 w1 where step: "swapRegion nm handle olds w = (r1, w1)" by (cases "swapRegion nm handle olds w")
  show ?case
  proof (cases r1)
    case (Inl e1)
    with step Cons.prems p have "w' = w1" by simp
    moreover have "w1 = w" using step Inl swapRegion_Inl by blast
    ultimately have "trace w' = trace w @ []" by simp
    then show ?thesis by (intro exI [of _ "[]"]) simp
  next
    case (Inr olds1)
    with step Cons.prems p have rest: "swapRegions hs olds1 w1 = (Inl e, w')" by simp
    from Cons.IH [OF rest] obtain es where es: "trace w' = trace w1 @ es" "\<forall>k. EvReleaseKey k \<notin> set es" by blast
    from swapRegion_Inr [OF step [unfolded Inr]] obtain ps where "trace w1 = trace w @ ps" "\<forall>k. EvReleaseKey k \<notin> set ps"
      by (elim disjE exE conjE) (rule that [of "[]"], simp, simp, rule that, assumption, simp)
    with es have "trace w' = trace w @ (ps @ es)" "\<forall>k. EvReleaseKey k \<notin> set (ps @ es)" by simp_all
    then show ?thesis by blast
  qed
qed

lemma fold_Remove_trace:
  "\<exists>es. trace (fold (\<lambda>pair. Remove env (shm_key (snd pair))) hs w) = trace w @ es \<and>
        (\<forall>e \<in> set es. \<exists>k ok. e = EvRemove k ok)"
proof (induction hs arbitrary: w)
  case Nil
  then show ?case by simp
next
  case (Cons p hs)
  obtain ok where ok: "trace (Remove env (shm_key (snd p)) w) = trace w @ [EvRemove (shm_key (snd p)) ok]"
    using trace_Remove by blast
  from Cons.IH [of "Remove env (shm_key (snd p)) w"] obtain es where
    "trace (fold (\<lambda>pair. Remove env (shm_key (snd pair))) hs (Remove env (shm_key (snd p)) w)) =
       trace (Remove env (shm_key (snd p)) w) @ es" "\<forall>e \<in> set es. \<exists>k ok. e = EvRemove k ok" by blast
  with ok have "trace (fold (\<lambda>pair. Remove env (shm_key (snd pair))) (p # hs) w) =
       trace w @ (EvRemove (shm_key (snd p)) ok # es) \<and>
       (\<forall>e \<in> set (EvRemove (shm_key (snd p)) ok # es). \<exists>k ok. e = EvRemove k ok)" by simp
  then show ?case by blast
qed

lemma release_after_wait_triples:
  "release_after_wait (concat (map (\<lambda>(h :: RegionHandle, ok). [EvRemove (shm_key h) ok, EvWaitForDetach (shm_key h),
                 EvReleaseKey (shm_key h)]) hs))"
  by (induction hs) (auto simp: release_after_wait_Nil intro: release_after_wait_triple)

lemma lock_event_not_release [simp]:
  "lock_event m \<noteq> EvReleaseKey k" "EvReleaseKey k \<noteq> lock_event m"
  by (simp_all add: lock_event_def)

lemma swapData_timeout:
  assumes "max_wait \<ge> 0 \<and> \<not> timed_lock env (nat max_wait)"
  shows "swapData env w handles max_wait =
     (Returns False,
      fold (\<lambda>pair. Remove env (shm_key (snd pair))) handles
        (emit [EvTimedLock (nat max_wait) False] w))"
  by (simp only: swapData_def if_P [OF assms])

lemma swapData_blocked:
  assumes "\<not> (max_wait \<ge> 0 \<and> \<not> timed_lock env (nat max_wait))"
    and "max_wait < 0 \<and> mutex_free_after env = None"
  shows "swapData env w handles max_wait = (Blocks, w)"
  by (simp only: swapData_def if_not_P [OF assms(1)] if_P [OF assms(2)])

lemma swapData_locked:
  assumes "\<not> (max_wait \<ge> 0 \<and> \<not> timed_lock env (nat max_wait))"
    and "\<not> (max_wait < 0 \<and> mutex_free_after env = None)"
  shows "swapData env w handles max_wait =
     (case swapRegions handles [] (emit [lock_event max_wait] w) of
        (Inl e, w2) \<Rightarrow> (Throws e, emit [EvUnlock] w2)
      | (Inr old_handles, w2) \<Rightarrow>
          (case retire env old_handles (emit [EvUnlock, EvNotifyAll] w2) of
             (Returns u, w3) \<Rightarrow> (Returns True, w3)
           | (Throws e, w3) \<Rightarrow> (Throws e, w3)
           | (Blocks, w3) \<Rightarrow> (Blocks, w3)))"
  by (simp only: swapData_def if_not_P [OF assms(1)] if_not_P [OF assms(2)] Let_def)

text \<open>The order of the events of a run of \<open>swapData\<close>, whatever its outcome.\<close>

lemma swapData_trace_order:
  assumes "swapData env w handles max_wait = (r, w')"
  shows "\<exists>es. trace w' = trace w @ es \<and>
     (\<forall>pre post key. es = pre @ EvReleaseKey key # post \<longrightarrow>
        (\<exists>pre' ok. pre = pre' @ [EvRemove key ok, EvWaitForDetach key])) \<and>
     (r = Returns True \<longrightarrow>
        (\<exists>(old_handles :: RegionHandle list) oks. length oks = length old_handles \<and>
           es = lock_event max_wait # map (\<lambda>h. EvAttach (shm_key h)) old_handles @ [EvUnlock, EvNotifyAll] @
                concat (map (\<lambda>(h, ok). [EvRemove (shm_key h) ok, EvWaitForDetach (shm_key h),
                  EvReleaseKey (shm_key h)]) (zip old_handles oks))))"
proof -
  let ?lock = "lock_event max_wait"
  have goal: "\<exists>es. trace w' = trace w @ es \<and> release_after_wait es \<and>
     (r = Returns True \<longrightarrow>
        (\<exists>(old_handles :: RegionHandle list) oks. length oks = length old_handles \<and>
           es = lock_event max_wait # map (\<lambda>h. EvAttach (shm_key h)) old_handles @ [EvUnlock, EvNotifyAll] @
                concat (map (\<lambda>(h, ok). [EvRemove (shm_key h) ok, EvWaitForDetach (shm_key h),
                  EvReleaseKey (shm_key h)]) (zip old_handles oks))))"
  proof (cases "max_wait \<ge> 0 \<and> \<not> timed_lock env (nat max_wait)")
    case True
    with assms have r: "r = Returns False"
      and w': "w' = fold (\<lambda>pair. Remove env (shm_key (snd pair))) handles
           (emit [EvTimedLock (nat max_wait) False] w)"
      by (simp_all add: swapData_timeout)
    from fold_Remove_trace [of env handles "emit [EvTimedLock (nat max_wait) False] w"]
    obtain es where es: "trace w' = trace w @ (EvTimedLock (nat max_wait) False # es)"
      "\<forall>e \<in> set es. \<exists>k ok. e = EvRemove k ok"
      unfolding w' by auto
    have "release_after_wait (EvTimedLock (nat max_wait) False # es)"
      using es(2) by (intro release_after_wait_none) auto
    with es(1) r show ?thesis by blast
  next
    case nolock: False
    show ?thesis
    proof (cases "max_wait < 0 \<and> mutex_free_after env = None")
      case True
      with nolock assms have "r = Blocks" "trace w' = trace w @ []"
        by (simp_all add: swapData_blocked)
      then show ?thesis using release_after_wait_Nil by blast
    next
      case False
      note unfolded = swapData_locked [OF nolock False, of w handles]
      obtain r1 w1 where sw: "swapRegions handles [] (emit [?lock] w) = (r1, w1)"
        by (cases "swapRegions handles [] (emit [?lock] w)")
      show ?thesis
      proof (cases r1)
        case (Inl e)
        with sw assms have "w' = emit [EvUnlock] w1" "r = Throws e"
          by (simp_all add: unfolded)
        moreover from swapRegions_Inl [OF sw [unfolded Inl]] obtain es where
          "trace w1 = trace (emit [?lock] w) @ es" "\<forall>k. EvReleaseKey k \<notin> set es" by blast
        ultimately have "trace w' = trace w @ (?lock # es @ [EvUnlock])"
          "\<forall>k. EvReleaseKey k \<notin> set (?lock # es @ [EvUnlock])" "r \<noteq> Returns True" by auto
        then show ?thesis using release_after_wait_none by blast
      next
        case (Inr olds)
        obtain r2 w2 where rt: "retire env olds (emit [EvUnlock, EvNotifyAll] w1) = (r2, w2)"
          by (cases "retire env olds (emit [EvUnlock, EvNotifyAll] w1)")
        from swapRegions_Inr [OF sw [unfolded Inr]] have mem: "\<forall>h \<in> set olds. memory h = shm_key h"
          and t1: "trace w1 = trace w @ ?lock # map (\<lambda>h. EvAttach (shm_key h)) olds"
          by auto
        from retire_trace [OF rt mem] obtain es where es: "trace w2 = trace w1 @ [EvUnlock, EvNotifyAll] @ es"
          "release_after_wait es" "r2 = Returns () \<longrightarrow> (\<exists>oks. length oks = length olds \<and>
          es = concat (map (\<lambda>(h, ok). [EvRemove (shm_key h) ok, EvWaitForDetach (shm_key h),
                 EvReleaseKey (shm_key h)]) (zip olds oks)))" by auto
        from sw Inr rt assms have w': "w' = w2" and r: "r = Returns True \<longleftrightarrow> r2 = Returns ()"
          by (auto simp: unfolded split: outcome.splits)
        let ?pre = "?lock # map (\<lambda>h. EvAttach (shm_key h)) olds @ [EvUnlock, EvNotifyAll]"
        have tr: "trace w' = trace w @ (?pre @ es)" using es(1) t1 w' by simp
        have "\<And>k. EvReleaseKey k \<notin> set ?pre" by auto
        then have ok: "release_after_wait (?pre @ es)" using es(2) by (rule release_after_wait_append)
        have "r = Returns True \<longrightarrow> (\<exists>(old_handles :: RegionHandle list) oks. length oks = length old_handles \<and>
           ?pre @ es = lock_event max_wait # map (\<lambda>h. EvAttach (shm_key h)) old_handles @ [EvUnlock, EvNotifyAll] @
                concat (map (\<lambda>(h, ok). [EvRemove (shm_key h) ok, EvWaitForDetach (shm_key h),
                  EvReleaseKey (shm_key h)]) (zip old_handles oks)))"
        proof
          assume "r = Returns True"
          with r es(3) obtain oks where "length oks = length olds" "es = concat (map (\<lambda>(h, ok). [EvRemove (shm_key h) ok, EvWaitForDetach (shm_key h),
                 EvReleaseKey (shm_key h)]) (zip olds oks))" by blast
          then have both: "length oks = length olds \<and> ?pre @ es = ?lock # map (\<lambda>h. EvAttach (shm_key h)) olds @ [EvUnlock, EvNotifyAll] @
                concat (map (\<lambda>(h, ok). [EvRemove (shm_key h) ok, EvWaitForDetach (shm_key h),
                  EvReleaseKey (shm_key h)]) (zip olds oks))" by simp
          show "\<exists>(old_handles :: RegionHandle list) oks. length oks = length old_handles \<and>
           ?pre @ es = lock_event max_wait # map (\<lambda>h. EvAttach (shm_key h)) old_handles @ [EvUnlock, EvNotifyAll] @
                concat (map (\<lambda>(h, ok). [EvRemove (shm_key h) ok, EvWaitForDetach (shm_key h),
                  EvReleaseKey (shm_key h)]) (zip old_handles oks))"
            by (rule exI [of _ olds], rule exI [of _ oks], rule both)
        qed
        with tr ok show ?thesis by blast
      qed
    qed
  qed
  then show ?thesis unfolding release_after_wait_def .
qed

subsection \<open>swapData: the register\<close>

lemma first_index_Some:
  "first_index P xs = Some i \<Longrightarrow> i < length xs \<and> P (xs ! i) \<and> (\<forall>j < i. \<not> P (xs ! j))"
proof (induction xs arbitrary: i)
  case Nil
  then show ?case by simp
next
  case (Cons x xs)
  show ?case
  proof (cases "P x")
    case True
    with Cons.prems show ?thesis by simp
  next
    case False
    with Cons.prems obtain i' where i': "first_index P xs = Some i'" "i = Suc i'" by auto
    from Cons.IH [OF i'(1)] False i'(2) show ?thesis by (auto simp: less_Suc_eq_0_disj)
  qed
qed

lemma first_index_None: "first_index P xs = None \<longleftrightarrow> (\<forall>x \<in> set xs. \<not> P x)"
  by (induction xs) auto

lemma first_index_update_same:
  "P y = P (xs ! i) \<Longrightarrow> i < length xs \<Longrightarrow> first_index P (xs[i := y]) = first_index P xs"
proof (induction xs arbitrary: i)
  case Nil
  then show ?case by simp
next
  case (Cons x xs)
  then show ?case by (cases i) auto
qed

lemma first_index_update_new:
  "P y \<Longrightarrow> i < length xs \<Longrightarrow> \<forall>x \<in> set xs. \<not> P x \<Longrightarrow> first_index P (xs[i := y]) = Some i"
proof (induction xs arbitrary: i)
  case Nil
  then show ?case by simp
next
  case (Cons x xs)
  then show ?case by (cases i) auto
qed

text \<open>What one pass of the loop body does to the entry of a name.\<close>

lemma swapRegion_other:
  assumes "swapRegion n2 h olds w = (Inr olds', w')" and "n2 \<noteq> nm" and "nm \<noteq> []"
  shows "Find (shared_register w') nm = Find (shared_register w) nm \<and>
         (\<forall>i. Find (shared_register w) nm = Some i \<longrightarrow>
              GetRegion (shared_register w') i = GetRegion (shared_register w) i)"
proof (cases "Find (shared_register w) n2")
  case None
  with assms(1) obtain i where reg: "first_index IsEmpty (regions (shared_register w)) = Some i"
    and w': "shared_register w' = (shared_register w)\<lparr> regions := (regions (shared_register w))
        [i := \<lparr> region_name = n2, region_shm_key = shm_key h, timestamp = INITIAL_TIMESTAMP \<rparr>] \<rparr>"
    by (auto simp: swapRegion_def Register_def split: option.splits)
  from first_index_Some [OF reg] have i: "i < length (regions (shared_register w))"
    "region_name (regions (shared_register w) ! i) = []" by (simp_all add: IsEmpty_def)
  have same: "Find (shared_register w') nm = Find (shared_register w) nm"
    unfolding Find_def w' using i assms(2,3) by (simp add: first_index_update_same)
  have "GetRegion (shared_register w') j = GetRegion (shared_register w) j"
    if "Find (shared_register w) nm = Some j" for j
  proof -
    from first_index_Some [OF that [unfolded Find_def]] i(2) assms(3) have "j \<noteq> i" by auto
    then show ?thesis by (simp add: GetRegion_def w')
  qed
  with same show ?thesis by blast
next
  case (Some j2)
  let ?sr = "GetRegion (shared_register w) j2"
  from Some assms(1) have w': "shared_register w' = (shared_register w)\<lparr> regions :=
      (regions (shared_register w))[j2 := ?sr\<lparr> region_shm_key := shm_key h,
          timestamp := timestamp ?sr + 1 \<rparr>] \<rparr>"
    by (auto simp: swapRegion_def Let_def makeSharedMemory_attach_def emit_def
             split: sum.splits if_splits)
  from first_index_Some [OF Some [unfolded Find_def]]
  have j2: "j2 < length (regions (shared_register w))"
    "region_name (regions (shared_register w) ! j2) = n2" by simp_all
  have same: "Find (shared_register w') nm = Find (shared_register w) nm"
    unfolding Find_def w' using j2 assms(2) by (simp add: first_index_update_same GetRegion_def)
  have "GetRegion (shared_register w') j = GetRegion (shared_register w) j"
    if "Find (shared_register w) nm = Some j" for j
  proof -
    from first_index_Some [OF that [unfolded Find_def]] j2(2) assms(2) have "j \<noteq> j2" by auto
    then show ?thesis by (simp add: GetRegion_def w')
  qed
  with same show ?thesis by blast
qed

lemma swapRegion_self:
  assumes "swapRegion nm h olds w = (Inr olds', w')"
  shows "(Find (shared_register w) nm = None \<longrightarrow>
            (\<exists>i. Find (shared_register w') nm = Some i \<and>
                 GetRegion (shared_register w') i =
                   \<lparr> region_name = nm, region_shm_key = shm_key h, timestamp = INITIAL_TIMESTAMP \<rparr>)) \<and>
         (\<forall>i. Find (shared_register w) nm = Some i \<longrightarrow>
            Find (shared_register w') nm = Some i \<and>
            GetRegion (shared_register w') i =
              (GetRegion (shared_register w) i)\<lparr> region_shm_key := shm_key h,
                 timestamp := timestamp (GetRegion (shared_register w) i) + 1 \<rparr>)"
proof (cases "Find (shared_register w) nm")
  case None
  with assms(1) obtain i where reg: "first_index IsEmpty (regions (shared_register w)) = Some i"
    and w': "shared_register w' = (shared_register w)\<lparr> regions := (regions (shared_register w))
        [i := \<lparr> region_name = nm, region_shm_key = shm_key h, timestamp = INITIAL_TIMESTAMP \<rparr>] \<rparr>"
    by (auto simp: swapRegion_def Register_def split: option.splits)
  from first_index_Some [OF reg] have i: "i < length (regions (shared_register w))" by simp
  from None have none: "\<forall>x \<in> set (regions (shared_register w)). region_name x \<noteq> nm"
    by (simp add: Find_def first_index_None)
  have "Find (shared_register w') nm = Some i"
    unfolding Find_def w' using i none by (simp add: first_index_update_new)
  moreover have "GetRegion (shared_register w') i =
      \<lparr> region_name = nm, region_shm_key = shm_key h, timestamp = INITIAL_TIMESTAMP \<rparr>"
    using i by (simp add: GetRegion_def w')
  ultimately show ?thesis using None by simp
next
  case (Some j)
  let ?sr = "GetRegion (shared_register w) j"
  from Some assms(1) have w': "shared_register w' = (shared_register w)\<lparr> regions :=
      (regions (shared_register w))[j := ?sr\<lparr> region_shm_key := shm_key h,
          timestamp := timestamp ?sr + 1 \<rparr>] \<rparr>"
    by (auto simp: swapRegion_def Let_def makeSharedMemory_attach_def emit_def
             split: sum.splits if_splits)
  from first_index_Some [OF Some [unfolded Find_def]]
  have j: "j < length (regions (shared_register w))" by simp
  have "Find (shared_register w') nm = Some j"
    unfolding Find_def w' using j Some by (simp add: first_index_update_same GetRegion_def Find_def)
  moreover have "GetRegion (shared_register w') j = ?sr\<lparr> region_shm_key := shm_key h,
          timestamp := timestamp ?sr + 1 \<rparr>"
    using j by (simp add: GetRegion_def w')
  ultimately show ?thesis using Some by simp
qed

lemma swapRegions_other:
  "swapRegions hs olds w = (Inr olds', w') \<Longrightarrow> nm \<notin> fst ` set hs \<Longrightarrow> nm \<noteq> [] \<Longrightarrow>
     Find (shared_register w') nm = Find (shared_register w) nm \<and>
     (\<forall>i. Find (shared_register w) nm = Some i \<longrightarrow>
          GetRegion (shared_register w') i = GetRegion (shared_register w) i)"
proof (induction hs arbitrary: olds w)
  case Nil
  then show ?case by simp
next
  case (Cons p hs)
  obtain n2 handle where p: "p = (n2, handle)" by (cases p)
  obtain r1 w1 where step: "swapRegion n2 handle olds w = (r1, w1)"
    by (cases "swapRegion n2 handle olds w")
  with Cons.prems(1) p obtain olds1 where r1: "r1 = Inr olds1"
    and rest: "swapRegions hs olds1 w1 = (Inr olds', w')"
    by (cases r1) auto
  from Cons.prems(2) p have ne: "n2 \<noteq> nm" and notin: "nm \<notin> fst ` set hs" by auto
  from swapRegion_other [OF step [unfolded r1] ne Cons.prems(3)]
  have s1: "Find (shared_register w1) nm = Find (shared_register w) nm"
    and s2: "\<And>i. Find (shared_register w) nm = Some i \<Longrightarrow>
          GetRegion (shared_register w1) i = GetRegion (shared_register w) i" by simp_all
  from Cons.IH [OF rest notin Cons.prems(3)]
  have t1: "Find (shared_register w') nm = Find (shared_register w1) nm"
    and t2: "\<And>i. Find (shared_register w1) nm = Some i \<Longrightarrow>
          GetRegion (shared_register w') i = GetRegion (shared_register w1) i" by simp_all
  show ?case using s1 s2 t1 t2 by simp
qed

lemma swapRegions_entry:
  "swapRegions hs olds w = (Inr olds', w') \<Longrightarrow> distinct (map fst hs) \<Longrightarrow> (nm, h) \<in> set hs \<Longrightarrow>
   nm \<noteq> [] \<Longrightarrow>
     (Find (shared_register w) nm = None \<longrightarrow>
            (\<exists>i. Find (shared_register w') nm = Some i \<and>
                 GetRegion (shared_register w') i =
                   \<lparr> region_name = nm, region_shm_key = shm_key h, timestamp = INITIAL_TIMESTAMP \<rparr>)) \<and>
     (\<forall>i. Find (shared_register w) nm = Some i \<longrightarrow>
            Find (shared_register w') nm = Some i \<and>
            GetRegion (shared_register w') i =
              (GetRegion (shared_register w) i)\<lparr> region_shm_key := shm_key h,
                 timestamp := timestamp (GetRegion (shared_register w) i) + 1 \<rparr>)"
proof (induction hs arbitrary: olds w)
  case Nil
  then show ?case by simp
next
  case (Cons p hs)
  obtain n2 handle where p: "p = (n2, handle)" by (cases p)
  obtain r1 w1 where step: "swapRegion n2 handle olds w = (r1, w1)"
    by (cases "swapRegion n2 handle olds w")
  with Cons.prems(1) p obtain olds1 where r1: "r1 = Inr olds1"
    and rest: "swapRegions hs olds1 w1 = (Inr olds', w')"
    by (cases r1) auto
  from Cons.prems(2) p have dist: "distinct (map fst hs)" and fresh: "n2 \<notin> fst ` set hs" by auto
  show ?case
  proof (cases "(nm, h) = p")
    case True
    with p have eq: "n2 = nm" "handle = h" by simp_all
    note self = swapRegion_self [OF step [unfolded r1 eq]]
    from fresh eq have "nm \<notin> fst ` set hs" by simp
    note other = swapRegions_other [OF rest this Cons.prems(4)]
    show ?thesis using self other by auto
  next
    case False
    with Cons.prems(3) have mem: "(nm, h) \<in> set hs" by simp
    with fresh have ne: "n2 \<noteq> nm" by force
    note other = swapRegion_other [OF step [unfolded r1] ne Cons.prems(4)]
    note ih = Cons.IH [OF rest dist mem Cons.prems(4)]
    show ?thesis using other ih by auto
  qed
qed

lemma Remove_register [simp]: "shared_register (Remove env k w) = shared_register w"
  by (simp add: Remove_def emit_def)

lemma emit_register [simp]: "shared_register (emit es w) = shared_register w"
  by (simp add: emit_def)

lemma retire_regions:
  "retire env olds w = (r, w') \<Longrightarrow> regions (shared_register w') = regions (shared_register w)"
proof (induction olds arbitrary: w)
  case Nil
  then show ?case by simp
next
  case (Cons h olds)
  show ?case
  proof (cases "readers_detach env (memory h)")
    case False
    with Cons.prems show ?thesis by (auto simp: Let_def)
  next
    case True
    with Cons.prems have "retire env olds (emit [EvReleaseKey (shm_key h)]
        ((emit [EvWaitForDetach (memory h)] (Remove env (shm_key h) w))
           \<lparr> shared_register := ReleaseKey (shm_key h)
               (shared_register (emit [EvWaitForDetach (memory h)] (Remove env (shm_key h) w))) \<rparr>)) = (r, w')"
      by (simp add: Let_def)
    from Cons.IH [OF this] show ?thesis by (simp add: ReleaseKey_def)
  qed
qed

lemma Find_regions: "regions a = regions b \<Longrightarrow> Find a nm = Find b nm"
  by (simp add: Find_def)

lemma GetRegion_regions: "regions a = regions b \<Longrightarrow> GetRegion a i = GetRegion b i"
  by (simp add: GetRegion_def)

lemma word_less_succ: "(x :: 64 word) \<noteq> - 1 \<Longrightarrow> x < x + 1"
  by (metis inc_less_eq_triv_imp linorder_less_linear word_le_less_eq)

lemma swapData_True:
  assumes "swapData env w handles max_wait = (Returns True, w')"
  shows "\<exists>olds w2. swapRegions handles [] (emit [lock_event max_wait] w) = (Inr olds, w2) \<and>
           retire env olds (emit [EvUnlock, EvNotifyAll] w2) = (Returns (), w')"
proof -
  have a: "\<not> (max_wait \<ge> 0 \<and> \<not> timed_lock env (nat max_wait))"
  proof
    assume c: "max_wait \<ge> 0 \<and> \<not> timed_lock env (nat max_wait)"
    from swapData_timeout [OF c, of w handles] assms show False by simp
  qed
  have b: "\<not> (max_wait < 0 \<and> mutex_free_after env = None)"
  proof
    assume c: "max_wait < 0 \<and> mutex_free_after env = None"
    from swapData_blocked [OF a c, of w handles] assms show False by simp
  qed
  obtain r1 w1 where sw: "swapRegions handles [] (emit [lock_event max_wait] w) = (r1, w1)"
    by (cases "swapRegions handles [] (emit [lock_event max_wait] w)")
  obtain r2 w2 where rt: "retire env (projr r1) (emit [EvUnlock, EvNotifyAll] w1) = (r2, w2)"
    by (cases "retire env (projr r1) (emit [EvUnlock, EvNotifyAll] w1)")
  from assms sw rt show ?thesis
    unfolding swapData_locked [OF a b]
    by (cases r1; cases r2) auto
qed

text \<open>
  C4, amended. For a successful \<open>swapData\<close> over handles with distinct names and a
  non-empty name among them: when the name was not registered before, its entry afterwards
  has the timestamp 0 that \<open>Register\<close> gives it; when it was registered, the entry
  stays at its index and its timestamp is the previous one plus 1, which is strictly greater
  unless the 64 bit counter wraps around.
\<close>

theorem timestamp_after_swap:
  assumes "swapData env w handles max_wait = (Returns True, w')"
    and "distinct (map fst handles)" and "(nm, h) \<in> set handles" and "nm \<noteq> []"
  shows "(Find (shared_register w) nm = None \<longrightarrow>
            (\<exists>i. Find (shared_register w') nm = Some i \<and>
                 timestamp (GetRegion (shared_register w') i) = 0)) \<and>
         (\<forall>i. Find (shared_register w) nm = Some i \<longrightarrow>
            Find (shared_register w') nm = Some i \<and>
            timestamp (GetRegion (shared_register w') i) =
              timestamp (GetRegion (shared_register w) i) + 1 \<and>
            (timestamp (GetRegion (shared_register w) i) \<noteq> - 1 \<longrightarrow>
               timestamp (GetRegion (shared_register w) i) <
               timestamp (GetRegion (shared_register w') i)))"
proof -
  from swapData_True [OF assms(1)] obtain olds w2 where
    sw: "swapRegions handles [] (emit [lock_event max_wait] w) = (Inr olds, w2)" and
    rt: "retire env olds (emit [EvUnlock, EvNotifyAll] w2) = (Returns (), w')" by blast
  from retire_regions [OF rt] have same: "regions (shared_register w') = regions (shared_register w2)"
    by simp
  note entry = swapRegions_entry [OF sw assms(2,3,4), simplified]
  have F: "Find (shared_register w') nm = Find (shared_register w2) nm"
    by (rule Find_regions [OF same])
  have G: "GetRegion (shared_register w') i = GetRegion (shared_register w2) i" for i
    by (rule GetRegion_regions [OF same])
  show ?thesis using entry by (auto simp: F G INITIAL_TIMESTAMP_def word_less_succ)
qed


lemmas swap_defs = swapData_def timed_lock_def lock_event_def swapRegion_def Find_def Register_def
  GetRegion_def makeSharedMemory_attach_def RegionExists_def emit_def Remove_def ReleaseKey_def
  IsEmpty_def empty_region_def INITIAL_TIMESTAMP_def Let_def

lemma first_publish:
  "fst (swapData free_env first_world first_handles (- 1)) = Returns True \<and>
   regions (shared_register (snd (swapData free_env first_world first_handles (- 1)))) =
     [\<lparr> region_name = ''alpha/static'', region_shm_key = 0, timestamp = 0 \<rparr>, empty_region] \<and>
   trace (snd (swapData free_env first_world first_handles (- 1))) = [EvLock, EvUnlock, EvNotifyAll]"
  by (simp add: free_env_def first_world_def first_handles_def swap_defs)

lemma second_publish:
  "fst (swapData free_env second_world second_handles (- 1)) = Returns True \<and>
   regions (shared_register (snd (swapData free_env second_world second_handles (- 1)))) =
     [\<lparr> region_name = ''alpha/static'', region_shm_key = 1, timestamp = 1 \<rparr>, empty_region] \<and>
   shm_key_in_use (shared_register (snd (swapData free_env second_world second_handles (- 1)))) =
     [False, True] \<and>
   trace (snd (swapData free_env second_world second_handles (- 1))) =
     [EvLock, EvAttach 0, EvUnlock, EvNotifyAll, EvRemove 0 True, EvWaitForDetach 0, EvReleaseKey 0]"
  by (simp add: free_env_def second_world_def second_handles_def swap_defs)


text \<open>
  C4, as the specification states it, fails: \<open>swapData\<close> increments the timestamp only of
  a name it finds registered. The first successful publish of \<open>alpha/static\<close> leaves the
  timestamp at the 0 that \<open>Register\<close> created the entry with, not at 1.
\<close>

theorem first_publish_timestamp_counterexample:
  "fst (swapData free_env first_world first_handles (- 1)) = Returns True \<and>
   Find (shared_register first_world) ''alpha/static'' = None \<and>
   Find (shared_register (snd (swapData free_env first_world first_handles (- 1))))
     ''alpha/static'' = Some 0 \<and>
   timestamp (GetRegion (shared_register (snd (swapData free_env first_world first_handles (- 1)))) 0)
     = 0 \<and>
   (0 :: 64 word) \<noteq> 1"
proof -
  have "Find (shared_register first_world) ''alpha/static'' = None"
    by (simp add: first_world_def Find_def empty_region_def)
  moreover have "Find (shared_register (snd (swapData free_env first_world first_handles (- 1))))
     ''alpha/static'' = Some 0"
    using first_publish by (simp add: Find_def)
  moreover have "timestamp (GetRegion (shared_register
      (snd (swapData free_env first_world first_handles (- 1)))) 0) = 0"
    using first_publish by (simp add: GetRegion_def)
  ultimately show ?thesis using first_publish by simp
qed

theorem timestamp_after_swap_witness:
  "swapData free_env second_world second_handles (- 1) =
     (Returns True, snd (swapData free_env second_world second_handles (- 1))) \<and>
   distinct (map fst second_handles) \<and>
   (''alpha/static'', \<lparr> memory = 1, data_ptr = Some 8, shm_key = 1 \<rparr>) \<in> set second_handles \<and>
   ''alpha/static'' \<noteq> [] \<and>
   Find (shared_register second_world) ''alpha/static'' = Some 0 \<and>
   timestamp (GetRegion (shared_register second_world) 0) = 0 \<and>
   Find (shared_register (snd (swapData free_env second_world second_handles (- 1))))
     ''alpha/static'' = Some 0 \<and>
   timestamp (GetRegion (shared_register
     (snd (swapData free_env second_world second_handles (- 1)))) 0) = 1"
proof -
  let ?run = "swapData free_env second_world second_handles (- 1)"
  have run: "?run = (Returns True, snd ?run)"
    using second_publish by (simp add: prod_eq_iff)
  have dist: "distinct (map fst second_handles)" by (simp add: second_handles_def)
  have mem: "(''alpha/static'', \<lparr> memory = 1, data_ptr = Some 8, shm_key = 1 \<rparr>) \<in> set second_handles"
    by (simp add: second_handles_def)
  have ne: "''alpha/static'' \<noteq> []" by simp
  have found: "Find (shared_register second_world) ''alpha/static'' = Some 0"
    by (simp add: second_world_def Find_def)
  have before: "timestamp (GetRegion (shared_register second_world) 0) = 0"
    by (simp add: second_world_def GetRegion_def)
  from timestamp_after_swap [OF run dist mem ne] found before
  have "Find (shared_register (snd ?run)) ''alpha/static'' = Some 0 \<and>
        timestamp (GetRegion (shared_register (snd ?run)) 0) = 1"
    by simp
  with run dist mem ne found before show ?thesis by blast
qed

subsection \<open>swapData: retiring the old segments\<close>

lemma fold_Remove_register:
  "shared_register (fold (\<lambda>pair. Remove env (shm_key (snd pair))) hs w) = shared_register w"
  by (induction hs arbitrary: w) simp_all

lemma Remove_segments:
  "segments (Remove env key w) =
     (if remove_succeeds env key then (segments w)(key := None) else segments w)"
  by (auto simp: Remove_def emit_def RegionExists_def fun_eq_iff)

lemma fold_release_length:
  "length (fold (\<lambda>h u. u[unat (shm_key h) := False]) hs u) = length u"
  by (induction hs arbitrary: u) simp_all

lemma fold_release_nth:
  "i < length u \<Longrightarrow>
   fold (\<lambda>h u. u[unat (shm_key h) := False]) hs u ! i =
     (u ! i \<and> i \<notin> (\<lambda>h. unat (shm_key h)) ` set hs)"
proof (induction hs arbitrary: u)
  case Nil
  then show ?case by simp
next
  case (Cons h hs)
  from Cons.prems have "i < length (u[unat (shm_key h) := False])" by simp
  from Cons.IH [OF this] Cons.prems show ?case
    by (cases "unat (shm_key h) < length u")
       (auto simp: nth_list_update list_update_beyond split: if_splits)
qed

text \<open>One round of the loop over the old handles.\<close>

lemma retire_block:
  assumes "retire env (h # olds) w = (r, w')" and "\<not> readers_detach env (memory h)"
  shows "r = Blocks" and "w' = Remove env (shm_key h) w"
  using assms by (simp_all add: Let_def)

lemma retire_step:
  assumes "retire env (h # olds) w = (r, w')" and "readers_detach env (memory h)"
  obtains w3 where "retire env olds w3 = (r, w')"
    and "trace w3 = trace (Remove env (shm_key h) w) @
           [EvWaitForDetach (memory h), EvReleaseKey (shm_key h)]"
    and "segments w3 = segments (Remove env (shm_key h) w)"
    and "shm_key_in_use (shared_register w3) =
           (shm_key_in_use (shared_register w))[unat (shm_key h) := False]"
proof -
  let ?w3 = "emit [EvReleaseKey (shm_key h)]
      ((emit [EvWaitForDetach (memory h)] (Remove env (shm_key h) w))
         \<lparr> shared_register := ReleaseKey (shm_key h)
             (shared_register (emit [EvWaitForDetach (memory h)] (Remove env (shm_key h) w))) \<rparr>)"
  from assms have "retire env olds ?w3 = (r, w')" by (simp add: Let_def)
  moreover have "trace ?w3 = trace (Remove env (shm_key h) w) @
           [EvWaitForDetach (memory h), EvReleaseKey (shm_key h)]"
    by (simp add: emit_def)
  moreover have "segments ?w3 = segments (Remove env (shm_key h) w)"
    by (simp add: emit_def)
  moreover have "shm_key_in_use (shared_register ?w3) =
           (shm_key_in_use (shared_register w))[unat (shm_key h) := False]"
    by (simp add: emit_def ReleaseKey_def Remove_def)
  ultimately show ?thesis by (rule that)
qed

lemma retire_extends:
  "retire env olds w = (r, w') \<Longrightarrow> \<exists>es. trace w' = trace w @ es"
proof (induction olds arbitrary: w)
  case Nil
  then show ?case by simp
next
  case (Cons h olds)
  obtain ok where ok: "trace (Remove env (shm_key h) w) = trace w @ [EvRemove (shm_key h) ok]"
    using trace_Remove by blast
  show ?case
  proof (cases "readers_detach env (memory h)")
    case False
    from retire_block(2) [OF Cons.prems False] ok show ?thesis by simp
  next
    case True
    from retire_step [OF Cons.prems True] obtain w3 where w3: "retire env olds w3 = (r, w')"
      "trace w3 = trace (Remove env (shm_key h) w) @
         [EvWaitForDetach (memory h), EvReleaseKey (shm_key h)]" by blast
    from Cons.IH [OF w3(1)] obtain es where "trace w' = trace w3 @ es" by blast
    with w3(2) ok show ?thesis by simp
  qed
qed

text \<open>
  What the loop has done when it ends, one way or the other: it has gone through a first
  part of the handles, all of them with readers that detached, released their keys, and
  logged each release.
\<close>

lemma retire_done:
  "retire env olds w = (r, w') \<Longrightarrow>
   \<exists>finished rest. olds = finished @ rest \<and> (r = Returns () \<longrightarrow> rest = []) \<and>
      (\<forall>h \<in> set finished. readers_detach env (memory h)) \<and>
      shm_key_in_use (shared_register w') =
        fold (\<lambda>h u. u[unat (shm_key h) := False]) finished (shm_key_in_use (shared_register w)) \<and>
      (\<forall>h \<in> set finished. EvReleaseKey (shm_key h) \<in> set (drop (length (trace w)) (trace w'))) \<and>
      (\<forall>key. EvReleaseKey key \<in> set (drop (length (trace w)) (trace w')) \<longrightarrow>
         key \<in> shm_key ` set finished)"
proof (induction olds arbitrary: w)
  case Nil
  then have "[] = [] @ ([] :: RegionHandle list)" and "w' = w" by simp_all
  then show ?case by (intro exI [of _ "[]"]) simp
next
  case (Cons h olds)
  show ?case
  proof (cases "readers_detach env (memory h)")
    case False
    from retire_block [OF Cons.prems False] have "r = Blocks" "w' = Remove env (shm_key h) w" .
    then have "h # olds = [] @ (h # olds) \<and> (r = Returns () \<longrightarrow> h # olds = []) \<and>
      (\<forall>g \<in> set []. readers_detach env (memory g)) \<and>
      shm_key_in_use (shared_register w') =
        fold (\<lambda>h u. u[unat (shm_key h) := False]) [] (shm_key_in_use (shared_register w)) \<and>
      (\<forall>g \<in> set []. EvReleaseKey (shm_key g) \<in> set (drop (length (trace w)) (trace w'))) \<and>
      (\<forall>key. EvReleaseKey key \<in> set (drop (length (trace w)) (trace w')) \<longrightarrow>
         key \<in> shm_key ` set ([] :: RegionHandle list))"
      by (simp add: Remove_def emit_def)
    then show ?thesis by blast
  next
    case True
    from retire_step [OF Cons.prems True] obtain w3 where w3: "retire env olds w3 = (r, w')"
      "trace w3 = trace (Remove env (shm_key h) w) @
         [EvWaitForDetach (memory h), EvReleaseKey (shm_key h)]"
      "shm_key_in_use (shared_register w3) =
         (shm_key_in_use (shared_register w))[unat (shm_key h) := False]" by blast
    obtain ok where ok: "trace (Remove env (shm_key h) w) = trace w @ [EvRemove (shm_key h) ok]"
      using trace_Remove by blast
    from retire_extends [OF w3(1)] obtain es where es: "trace w' = trace w3 @ es" by blast
    let ?triple = "[EvRemove (shm_key h) ok, EvWaitForDetach (memory h), EvReleaseKey (shm_key h)]"
    have t3: "trace w3 = trace w @ ?triple" using w3(2) ok by simp
    have new: "drop (length (trace w)) (trace w') = ?triple @ es" using es t3 by simp
    have new3: "drop (length (trace w3)) (trace w') = es" using es by simp
    from Cons.IH [OF w3(1)] obtain finished rest where ih: "olds = finished @ rest"
      "r = Returns () \<longrightarrow> rest = []"
      "\<forall>g \<in> set finished. readers_detach env (memory g)"
      "shm_key_in_use (shared_register w') =
        fold (\<lambda>h u. u[unat (shm_key h) := False]) finished (shm_key_in_use (shared_register w3))"
      "\<forall>g \<in> set finished. EvReleaseKey (shm_key g) \<in> set (drop (length (trace w3)) (trace w'))"
      "\<forall>key. EvReleaseKey key \<in> set (drop (length (trace w3)) (trace w')) \<longrightarrow>
         key \<in> shm_key ` set finished"
      by blast
    have "h # olds = (h # finished) @ rest" using ih(1) by simp
    moreover have "\<forall>g \<in> set (h # finished). readers_detach env (memory g)"
      using ih(3) True by simp
    moreover have "shm_key_in_use (shared_register w') =
        fold (\<lambda>h u. u[unat (shm_key h) := False]) (h # finished)
          (shm_key_in_use (shared_register w))"
      using ih(4) w3(3) by simp
    moreover have "\<forall>g \<in> set (h # finished).
        EvReleaseKey (shm_key g) \<in> set (drop (length (trace w)) (trace w'))"
      using ih(5) unfolding new new3 by auto
    moreover have "\<forall>key. EvReleaseKey key \<in> set (drop (length (trace w)) (trace w')) \<longrightarrow>
         key \<in> shm_key ` set (h # finished)"
      using ih(6) unfolding new new3 by auto
    ultimately show ?thesis using ih(2) by blast
  qed
qed

lemma retire_release_events:
  "retire env olds w = (r, w') \<Longrightarrow>
   (\<forall>key. EvReleaseKey key \<in> set (drop (length (trace w)) (trace w')) \<longrightarrow>
       (\<exists>h \<in> set olds. shm_key h = key \<and> readers_detach env (memory h))) \<and>
   (\<forall>key. EvRemove key True \<in> set (drop (length (trace w)) (trace w')) \<longrightarrow>
       remove_succeeds env key)"
proof (induction olds arbitrary: w)
  case Nil
  then show ?case by simp
next
  case (Cons h olds)
  have rem: "trace (Remove env (shm_key h) w) = trace w @ [EvRemove (shm_key h) False] \<or>
     (trace (Remove env (shm_key h) w) = trace w @ [EvRemove (shm_key h) True] \<and>
      remove_succeeds env (shm_key h))"
    by (auto simp: Remove_def emit_def)
  show ?case
  proof (cases "readers_detach env (memory h)")
    case False
    from retire_block(2) [OF Cons.prems False] rem show ?thesis by auto
  next
    case True
    from retire_step [OF Cons.prems True] obtain w3 where w3: "retire env olds w3 = (r, w')"
      "trace w3 = trace (Remove env (shm_key h) w) @
         [EvWaitForDetach (memory h), EvReleaseKey (shm_key h)]" by blast
    from retire_extends [OF w3(1)] obtain es where es: "trace w' = trace w3 @ es" by blast
    have new3: "drop (length (trace w3)) (trace w') = es" using es by simp
    note ih = Cons.IH [OF w3(1), unfolded new3]
    from rem show ?thesis
    proof
      assume f: "trace (Remove env (shm_key h) w) = trace w @ [EvRemove (shm_key h) False]"
      then have new: "drop (length (trace w)) (trace w') =
          [EvRemove (shm_key h) False, EvWaitForDetach (memory h), EvReleaseKey (shm_key h)] @ es"
        using es w3(2) by simp
      show ?thesis unfolding new using ih True by auto
    next
      assume t: "trace (Remove env (shm_key h) w) = trace w @ [EvRemove (shm_key h) True] \<and>
        remove_succeeds env (shm_key h)"
      then have new: "drop (length (trace w)) (trace w') =
          [EvRemove (shm_key h) True, EvWaitForDetach (memory h), EvReleaseKey (shm_key h)] @ es"
        using es w3(2) by simp
      show ?thesis unfolding new using ih True t by auto
    qed
  qed
qed

lemma retire_segments:
  "retire env olds w = (Returns (), w') \<Longrightarrow>
   segments w' key =
     (if key \<in> shm_key ` set olds \<and> remove_succeeds env key then None else segments w key)"
proof (induction olds arbitrary: w)
  case Nil
  then show ?case by simp
next
  case (Cons h olds)
  have det: "readers_detach env (memory h)"
  proof (rule ccontr)
    assume "\<not> readers_detach env (memory h)"
    from retire_block(1) [OF Cons.prems this] show False by simp
  qed
  from retire_step [OF Cons.prems det] obtain w3 where w3: "retire env olds w3 = (Returns (), w')"
    "segments w3 = segments (Remove env (shm_key h) w)" by blast
  from Cons.IH [OF w3(1)] w3(2) show ?case
    by (auto simp: Remove_segments)
qed

text \<open>The loop inside the critical section touches neither the segments nor the keys in use.\<close>

lemma swapRegion_same:
  "swapRegion nm h olds w = (r, w') \<Longrightarrow>
   segments w' = segments w \<and>
   shm_key_in_use (shared_register w') = shm_key_in_use (shared_register w)"
  by (auto simp: swapRegion_def Let_def Register_def makeSharedMemory_attach_def emit_def
           split: option.splits sum.splits if_splits)

lemma swapRegions_same:
  "swapRegions hs olds w = (r, w') \<Longrightarrow>
   segments w' = segments w \<and>
   shm_key_in_use (shared_register w') = shm_key_in_use (shared_register w)"
proof (induction hs arbitrary: olds w)
  case Nil
  then show ?case by simp
next
  case (Cons p hs)
  obtain nm handle where p: "p = (nm, handle)" by (cases p)
  obtain r1 w1 where step: "swapRegion nm handle olds w = (r1, w1)"
    by (cases "swapRegion nm handle olds w")
  note same = swapRegion_same [OF step]
  show ?case
  proof (cases r1)
    case (Inl e)
    with step Cons.prems p have "w' = w1" by simp
    with same show ?thesis by simp
  next
    case (Inr olds1)
    with step Cons.prems p have "swapRegions hs olds1 w1 = (r, w')" by simp
    from Cons.IH [OF this] same show ?thesis by simp
  qed
qed

text \<open>
  The old handles are the keys that the names of the new handles held in the register
  before the swap.
\<close>

lemma swapRegion_old_keys:
  "swapRegion nm h olds w = (Inr olds', w') \<Longrightarrow>
   map shm_key olds' = map shm_key olds @ replaced_keys (shared_register w) [(nm, h)]"
  by (auto simp: swapRegion_def Let_def replaced_keys_def makeSharedMemory_attach_def emit_def
           split: option.splits sum.splits if_splits)

lemma replaced_keys_Cons:
  "replaced_keys reg (p # hs) = replaced_keys reg [p] @ replaced_keys reg hs"
  by (simp add: replaced_keys_def)

lemma replaced_keys_cong:
  assumes "\<And>nm. nm \<in> fst ` set hs \<Longrightarrow> Find reg' nm = Find reg nm \<and>
      (\<forall>i. Find reg nm = Some i \<longrightarrow> GetRegion reg' i = GetRegion reg i)"
  shows "replaced_keys reg' hs = replaced_keys reg hs"
  using assms
proof (induction hs)
  case Nil
  then show ?case by (simp add: replaced_keys_def)
next
  case (Cons p hs)
  have one: "replaced_keys reg' [p] = replaced_keys reg [p]"
    using Cons.prems [of "fst p"] by (auto simp: replaced_keys_def split: option.splits)
  have "replaced_keys reg' hs = replaced_keys reg hs"
    by (rule Cons.IH) (use Cons.prems in auto)
  with one show ?case
    using replaced_keys_Cons [of reg' p hs] replaced_keys_Cons [of reg p hs] by simp
qed

lemma swapRegions_old_keys:
  "swapRegions hs olds w = (Inr olds', w') \<Longrightarrow> distinct (map fst hs) \<Longrightarrow> [] \<notin> fst ` set hs \<Longrightarrow>
   map shm_key olds' = map shm_key olds @ replaced_keys (shared_register w) hs"
proof (induction hs arbitrary: olds w)
  case Nil
  then show ?case by (simp add: replaced_keys_def)
next
  case (Cons p hs)
  obtain nm handle where p: "p = (nm, handle)" by (cases p)
  obtain r1 w1 where step: "swapRegion nm handle olds w = (r1, w1)"
    by (cases "swapRegion nm handle olds w")
  with Cons.prems(1) p obtain olds1 where r1: "r1 = Inr olds1"
    and rest: "swapRegions hs olds1 w1 = (Inr olds', w')"
    by (cases r1) auto
  from Cons.prems(2,3) p have dist: "distinct (map fst hs)" and fresh: "nm \<notin> fst ` set hs"
    and nonempty: "[] \<notin> fst ` set hs" by auto
  have "replaced_keys (shared_register w1) hs = replaced_keys (shared_register w) hs"
  proof (rule replaced_keys_cong)
    fix n2 assume n2: "n2 \<in> fst ` set hs"
    have "nm \<noteq> n2" using n2 fresh by blast
    moreover have "n2 \<noteq> []" using n2 nonempty by blast
    ultimately have "nm \<noteq> n2" "n2 \<noteq> []" .
    from swapRegion_other [OF step [unfolded r1] this]
    show "Find (shared_register w1) n2 = Find (shared_register w) n2 \<and>
      (\<forall>i. Find (shared_register w) n2 = Some i \<longrightarrow>
          GetRegion (shared_register w1) i = GetRegion (shared_register w) i)" .
  qed
  with Cons.IH [OF rest dist nonempty] swapRegion_old_keys [OF step [unfolded r1]] p
  show ?case using replaced_keys_Cons [of "shared_register w" p hs] by simp
qed

lemma fold_Remove_events:
  "\<exists>es. trace (fold (\<lambda>pair. Remove env (shm_key (snd pair))) hs w) = trace w @ es \<and>
        (\<forall>key. EvReleaseKey key \<notin> set es)"
proof -
  from fold_Remove_trace [of env hs w] obtain es where
    es: "trace (fold (\<lambda>pair. Remove env (shm_key (snd pair))) hs w) = trace w @ es"
    "\<forall>e \<in> set es. \<exists>k ok. e = EvRemove k ok" by blast
  from es(2) have "\<forall>key. EvReleaseKey key \<notin> set es" by auto
  with es(1) show ?thesis by blast
qed

text \<open>
  What a run of \<open>swapData\<close> does to the keys in use: a key leaves the pool exactly when its
  release is among the events of the run. The releases are those of the loop over the old
  handles, each for a segment whose readers have detached.
\<close>

lemma swapData_releases:
  assumes run: "swapData env w handles max_wait = (r, w')"
    and tr: "trace w' = trace w @ es"
  shows "(\<forall>key. EvReleaseKey key \<in> set es \<longrightarrow> readers_detach env key) \<and>
     length (shm_key_in_use (shared_register w')) = length (shm_key_in_use (shared_register w)) \<and>
     (\<forall>i < length (shm_key_in_use (shared_register w)).
        shm_key_in_use (shared_register w') ! i =
          (shm_key_in_use (shared_register w) ! i \<and>
           i \<notin> unat ` {key. EvReleaseKey key \<in> set es}))"
proof -
  have es: "es = drop (length (trace w)) (trace w')" using tr by simp
  have unchanged: ?thesis
    if "shm_key_in_use (shared_register w') = shm_key_in_use (shared_register w)"
      and "\<forall>key. EvReleaseKey key \<notin> set es"
    using that by simp
  show ?thesis
  proof (cases "max_wait \<ge> 0 \<and> \<not> timed_lock env (nat max_wait)")
    case True
    with run have w': "w' = fold (\<lambda>pair. Remove env (shm_key (snd pair))) handles
           (emit [EvTimedLock (nat max_wait) False] w)"
      by (simp add: swapData_timeout)
    from fold_Remove_events [of env handles "emit [EvTimedLock (nat max_wait) False] w"]
    obtain es1 where "trace w' = trace w @ (EvTimedLock (nat max_wait) False # es1)"
      "\<forall>key. EvReleaseKey key \<notin> set es1"
      unfolding w' by auto
    with tr have "\<forall>key. EvReleaseKey key \<notin> set es" by auto
    moreover have "shm_key_in_use (shared_register w') = shm_key_in_use (shared_register w)"
      unfolding w' by (simp add: fold_Remove_register emit_def)
    ultimately show ?thesis by (intro unchanged)
  next
    case nolock: False
    show ?thesis
    proof (cases "max_wait < 0 \<and> mutex_free_after env = None")
      case True
      with nolock run have "w' = w" by (simp add: swapData_blocked)
      with tr show ?thesis by (intro unchanged) simp_all
    next
      case False
      note unfolded = swapData_locked [OF nolock False, of w handles]
      let ?lock = "lock_event max_wait"
      obtain r1 w1 where sw: "swapRegions handles [] (emit [?lock] w) = (r1, w1)"
        by (cases "swapRegions handles [] (emit [?lock] w)")
      from swapRegions_same [OF sw]
      have same1: "shm_key_in_use (shared_register w1) = shm_key_in_use (shared_register w)"
        by (simp add: emit_def)
      show ?thesis
      proof (cases r1)
        case (Inl e)
        with sw run have w': "w' = emit [EvUnlock] w1" by (simp add: unfolded)
        from swapRegions_Inl [OF sw [unfolded Inl]] obtain es1 where
          es1: "trace w1 = trace (emit [?lock] w) @ es1" "\<forall>k. EvReleaseKey k \<notin> set es1" by blast
        with w' tr have "es = ?lock # es1 @ [EvUnlock]" by simp
        with es1(2) have "\<forall>key. EvReleaseKey key \<notin> set es" by simp
        moreover have "shm_key_in_use (shared_register w') = shm_key_in_use (shared_register w)"
          using same1 w' by (simp add: emit_def)
        ultimately show ?thesis by (intro unchanged)
      next
        case (Inr olds)
        let ?w2 = "emit [EvUnlock, EvNotifyAll] w1"
        obtain r2 w3 where rt: "retire env olds ?w2 = (r2, w3)"
          by (cases "retire env olds ?w2")
        from sw Inr rt run have w': "w' = w3" by (auto simp: unfolded split: outcome.splits)
        from swapRegions_Inr [OF sw [unfolded Inr]]
        have mem: "\<forall>h \<in> set olds. memory h = shm_key h"
          and t1: "trace w1 = trace w @ ?lock # map (\<lambda>h. EvAttach (shm_key h)) olds"
          by auto
        from retire_extends [OF rt] obtain es2 where es2: "trace w3 = trace ?w2 @ es2" by blast
        have new2: "drop (length (trace ?w2)) (trace w3) = es2" using es2 by simp
        have split_es: "es = ?lock # map (\<lambda>h. EvAttach (shm_key h)) olds @ [EvUnlock, EvNotifyAll] @ es2"
          using es2 t1 tr w' by simp
        have rel: "EvReleaseKey key \<in> set es \<longleftrightarrow> EvReleaseKey key \<in> set es2" for key
          unfolding split_es by auto
        from retire_done [OF rt, unfolded new2] obtain finished rest where fin:
          "olds = finished @ rest"
          "\<forall>h \<in> set finished. readers_detach env (memory h)"
          "shm_key_in_use (shared_register w3) =
             fold (\<lambda>h u. u[unat (shm_key h) := False]) finished
               (shm_key_in_use (shared_register ?w2))"
          "\<forall>h \<in> set finished. EvReleaseKey (shm_key h) \<in> set es2"
          "\<forall>key. EvReleaseKey key \<in> set es2 \<longrightarrow> key \<in> shm_key ` set finished"
          by blast
        have keys: "{key. EvReleaseKey key \<in> set es} = shm_key ` set finished"
          using fin(4,5) rel by auto
        have in_use: "shm_key_in_use (shared_register w') =
             fold (\<lambda>h u. u[unat (shm_key h) := False]) finished
               (shm_key_in_use (shared_register w))"
          using fin(3) same1 w' by (simp add: emit_def)
        have "\<forall>key. EvReleaseKey key \<in> set es \<longrightarrow> readers_detach env key"
        proof (intro allI impI)
          fix key assume "EvReleaseKey key \<in> set es"
          with keys obtain h where h: "h \<in> set finished" "key = shm_key h" by auto
          with fin(1) mem have "memory h = key" by simp
          with fin(2) h(1) show "readers_detach env key" by auto
        qed
        moreover have "length (shm_key_in_use (shared_register w')) =
            length (shm_key_in_use (shared_register w))"
          unfolding in_use by (rule fold_release_length)
        moreover have "\<forall>i < length (shm_key_in_use (shared_register w)).
            shm_key_in_use (shared_register w') ! i =
              (shm_key_in_use (shared_register w) ! i \<and>
               i \<notin> unat ` {key. EvReleaseKey key \<in> set es})"
          unfolding in_use keys by (simp add: fold_release_nth image_image)
        ultimately show ?thesis by blast
      qed
    qed
  qed
qed

lemma triple_Remove_mem:
  "(h, ok) \<in> set zs \<Longrightarrow>
   EvRemove (shm_key h) ok \<in>
     set (concat (map (\<lambda>(h :: RegionHandle, ok). [EvRemove (shm_key h) ok, EvWaitForDetach (shm_key h),
                  EvReleaseKey (shm_key h)]) zs))"
  by (induction zs) auto

text \<open>
  A successful swap: the old handles are attached under the keys that the names held, every
  one of them has been waited for, and exactly their segments are gone, as far as the system
  lets them be removed.
\<close>

lemma swapData_success:
  assumes run: "swapData env w handles max_wait = (Returns True, w')"
  shows "\<exists>(old_handles :: RegionHandle list) oks. length oks = length old_handles \<and>
     trace w' = trace w @
       lock_event max_wait # map (\<lambda>h. EvAttach (shm_key h)) old_handles @ [EvUnlock, EvNotifyAll] @
       concat (map (\<lambda>(h, ok). [EvRemove (shm_key h) ok, EvWaitForDetach (shm_key h),
                  EvReleaseKey (shm_key h)]) (zip old_handles oks)) \<and>
     (\<forall>h \<in> set old_handles. readers_detach env (shm_key h)) \<and>
     (\<forall>p \<in> set (zip old_handles oks). snd p \<longrightarrow> remove_succeeds env (shm_key (fst p))) \<and>
     (distinct (map fst handles) \<and> [] \<notin> fst ` set handles \<longrightarrow>
        map shm_key old_handles = replaced_keys (shared_register w) handles) \<and>
     (\<forall>key. segments w' key =
        (if key \<in> shm_key ` set old_handles \<and> remove_succeeds env key then None
         else segments w key))"
proof -
  let ?lock = "lock_event max_wait"
  have nolock: "\<not> (max_wait \<ge> 0 \<and> \<not> timed_lock env (nat max_wait))"
  proof
    assume "max_wait \<ge> 0 \<and> \<not> timed_lock env (nat max_wait)"
    from run [unfolded swapData_timeout [OF this]] show False by simp
  qed
  have free: "\<not> (max_wait < 0 \<and> mutex_free_after env = None)"
  proof
    assume "max_wait < 0 \<and> mutex_free_after env = None"
    from run [unfolded swapData_blocked [OF nolock this]] show False by simp
  qed
  note unfolded = swapData_locked [OF nolock free, of w handles]
  obtain r1 w1 where sw: "swapRegions handles [] (emit [?lock] w) = (r1, w1)"
    by (cases "swapRegions handles [] (emit [?lock] w)")
  from run sw obtain olds where r1: "r1 = Inr olds"
    by (cases r1) (auto simp: unfolded)
  let ?w2 = "emit [EvUnlock, EvNotifyAll] w1"
  obtain r2 w3 where rt0: "retire env olds ?w2 = (r2, w3)"
    by (cases "retire env olds ?w2")
  with run sw r1 have "r2 = Returns ()" and w': "w' = w3"
    by (auto simp: unfolded split: outcome.splits)
  with rt0 have rt: "retire env olds ?w2 = (Returns (), w3)" by simp
  from swapRegions_Inr [OF sw [unfolded r1]]
  have mem: "\<forall>h \<in> set olds. memory h = shm_key h"
    and t1: "trace w1 = trace w @ ?lock # map (\<lambda>h. EvAttach (shm_key h)) olds"
    by auto
  from retire_trace [OF rt mem] obtain oks where oks: "length oks = length olds"
    and t3: "trace w3 = trace ?w2 @
       concat (map (\<lambda>(h, ok). [EvRemove (shm_key h) ok, EvWaitForDetach (shm_key h),
                 EvReleaseKey (shm_key h)]) (zip olds oks))"
    by auto
  let ?triples = "concat (map (\<lambda>(h, ok). [EvRemove (shm_key h) ok, EvWaitForDetach (shm_key h),
                 EvReleaseKey (shm_key h)]) (zip olds oks))"
  have new2: "drop (length (trace ?w2)) (trace w3) = ?triples" using t3 by simp
  have tr: "trace w' = trace w @
       ?lock # map (\<lambda>h. EvAttach (shm_key h)) olds @ [EvUnlock, EvNotifyAll] @ ?triples"
    using t1 t3 w' by simp
  from retire_done [OF rt] obtain finished rest where "olds = finished @ rest" "rest = []"
    "\<forall>h \<in> set finished. readers_detach env (memory h)" by blast
  with mem have detached: "\<forall>h \<in> set olds. readers_detach env (shm_key h)" by simp
  from retire_release_events [OF rt, unfolded new2]
  have removed: "\<forall>key. EvRemove key True \<in> set ?triples \<longrightarrow> remove_succeeds env key" by blast
  have flags: "\<forall>p \<in> set (zip olds oks). snd p \<longrightarrow> remove_succeeds env (shm_key (fst p))"
  proof (intro ballI impI)
    fix p assume p: "p \<in> set (zip olds oks)" and flag: "snd p"
    from flag have "p = (fst p, True)" by (simp add: prod_eq_iff)
    with p have "(fst p, True) \<in> set (zip olds oks)" by simp
    then have "EvRemove (shm_key (fst p)) True \<in> set ?triples"
      by (rule triple_Remove_mem)
    with removed show "remove_succeeds env (shm_key (fst p))" by blast
  qed
  from swapRegions_same [OF sw] have seg1: "segments w1 = segments w" by (simp add: emit_def)
  have segs: "\<forall>key. segments w' key =
        (if key \<in> shm_key ` set olds \<and> remove_succeeds env key then None else segments w key)"
    using retire_segments [OF rt] seg1 w' by (simp add: emit_def)
  have keys: "distinct (map fst handles) \<and> [] \<notin> fst ` set handles \<longrightarrow>
        map shm_key olds = replaced_keys (shared_register w) handles"
  proof
    assume "distinct (map fst handles) \<and> [] \<notin> fst ` set handles"
    then have d: "distinct (map fst handles)" and n: "[] \<notin> fst ` set handles" by simp_all
    from swapRegions_old_keys [OF sw [unfolded r1] d n]
    show "map shm_key olds = replaced_keys (shared_register w) handles"
      by (simp add: emit_def)
  qed
  have "length oks = length olds \<and>
     trace w' = trace w @
       lock_event max_wait # map (\<lambda>h. EvAttach (shm_key h)) olds @ [EvUnlock, EvNotifyAll] @
       concat (map (\<lambda>(h, ok). [EvRemove (shm_key h) ok, EvWaitForDetach (shm_key h),
                  EvReleaseKey (shm_key h)]) (zip olds oks)) \<and>
     (\<forall>h \<in> set olds. readers_detach env (shm_key h)) \<and>
     (\<forall>p \<in> set (zip olds oks). snd p \<longrightarrow> remove_succeeds env (shm_key (fst p))) \<and>
     (distinct (map fst handles) \<and> [] \<notin> fst ` set handles \<longrightarrow>
        map shm_key olds = replaced_keys (shared_register w) handles) \<and>
     (\<forall>key. segments w' key =
        (if key \<in> shm_key ` set olds \<and> remove_succeeds env key then None
         else segments w key))"
    by (intro conjI) (rule oks tr detached flags keys segs)+
  then show ?thesis by (intro exI [of _ olds] exI [of _ oks])
qed

text \<open>
  C8. Whatever the outcome of \<open>swapData\<close>, the events it adds to the trace are such that
  every \<open>ReleaseKey(key)\<close> is for a segment whose readers have detached and comes directly
  after \<open>Remove(key)\<close> and \<open>WaitForDetach\<close> on that segment, in this order; a key leaves
  the pool of keys in use exactly when its release is among these events, and no other key
  changes. When \<open>swapData\<close> returns true, the events are the lock, one attach per old
  handle, the unlock and the notification, and then, for each old handle in turn, the three
  steps \<open>Remove\<close>, \<open>WaitForDetach\<close>, \<open>ReleaseKey\<close>; every old handle has been waited
  for; the old handles are the keys that the names of the new handles held in the register
  (the names being distinct, as in a \<open>std::map\<close>, and not empty); and the segments of the
  old handles are gone wherever the system lets them be removed, all other segments being
  as before. The result of \<open>Remove\<close> is not looked at by the code, so the flag of the
  removal event is only known to imply that the system allows the removal.
\<close>

theorem retire_order:
  assumes "swapData env w handles max_wait = (r, w')"
  shows "\<exists>es. trace w' = trace w @ es \<and>
     (\<forall>pre post key. es = pre @ EvReleaseKey key # post \<longrightarrow>
        readers_detach env key \<and>
        (\<exists>pre' ok. pre = pre' @ [EvRemove key ok, EvWaitForDetach key])) \<and>
     length (shm_key_in_use (shared_register w')) = length (shm_key_in_use (shared_register w)) \<and>
     (\<forall>i < length (shm_key_in_use (shared_register w)).
        shm_key_in_use (shared_register w') ! i =
          (shm_key_in_use (shared_register w) ! i \<and>
           i \<notin> unat ` {key. EvReleaseKey key \<in> set es})) \<and>
     (r = Returns True \<longrightarrow>
        (\<exists>(old_handles :: RegionHandle list) oks. length oks = length old_handles \<and>
           es = lock_event max_wait # map (\<lambda>h. EvAttach (shm_key h)) old_handles @
                [EvUnlock, EvNotifyAll] @
                concat (map (\<lambda>(h, ok). [EvRemove (shm_key h) ok, EvWaitForDetach (shm_key h),
                  EvReleaseKey (shm_key h)]) (zip old_handles oks)) \<and>
           (\<forall>h \<in> set old_handles. readers_detach env (shm_key h)) \<and>
           (\<forall>p \<in> set (zip old_handles oks). snd p \<longrightarrow> remove_succeeds env (shm_key (fst p))) \<and>
           (distinct (map fst handles) \<and> [] \<notin> fst ` set handles \<longrightarrow>
              map shm_key old_handles = replaced_keys (shared_register w) handles) \<and>
           (\<forall>key. segments w' key =
              (if key \<in> shm_key ` set old_handles \<and> remove_succeeds env key then None
               else segments w key))))"
proof -
  from swapData_trace_order [OF assms] obtain es where tr: "trace w' = trace w @ es"
    and ord: "\<forall>pre post key. es = pre @ EvReleaseKey key # post \<longrightarrow>
        (\<exists>pre' ok. pre = pre' @ [EvRemove key ok, EvWaitForDetach key])"
    by blast
  note rel = swapData_releases [OF assms tr]
  have order: "\<forall>pre post key. es = pre @ EvReleaseKey key # post \<longrightarrow>
        readers_detach env key \<and>
        (\<exists>pre' ok. pre = pre' @ [EvRemove key ok, EvWaitForDetach key])"
  proof (intro allI impI)
    fix pre post key
    assume e: "es = pre @ EvReleaseKey key # post"
    then have "EvReleaseKey key \<in> set es" by simp
    with rel have "readers_detach env key" by blast
    moreover from ord e have "\<exists>pre' ok. pre = pre' @ [EvRemove key ok, EvWaitForDetach key]"
      by blast
    ultimately show "readers_detach env key \<and>
        (\<exists>pre' ok. pre = pre' @ [EvRemove key ok, EvWaitForDetach key])" ..
  qed
  have success: "r = Returns True \<longrightarrow>
        (\<exists>(old_handles :: RegionHandle list) oks. length oks = length old_handles \<and>
           es = lock_event max_wait # map (\<lambda>h. EvAttach (shm_key h)) old_handles @
                [EvUnlock, EvNotifyAll] @
                concat (map (\<lambda>(h, ok). [EvRemove (shm_key h) ok, EvWaitForDetach (shm_key h),
                  EvReleaseKey (shm_key h)]) (zip old_handles oks)) \<and>
           (\<forall>h \<in> set old_handles. readers_detach env (shm_key h)) \<and>
           (\<forall>p \<in> set (zip old_handles oks). snd p \<longrightarrow> remove_succeeds env (shm_key (fst p))) \<and>
           (distinct (map fst handles) \<and> [] \<notin> fst ` set handles \<longrightarrow>
              map shm_key old_handles = replaced_keys (shared_register w) handles) \<and>
           (\<forall>key. segments w' key =
              (if key \<in> shm_key ` set old_handles \<and> remove_succeeds env key then None
               else segments w key)))"
  proof
    assume r: "r = Returns True"
    from swapData_success [OF assms [unfolded r]] obtain olds :: "RegionHandle list" and oks
      where len: "length oks = length olds"
        and t: "trace w' = trace w @
          lock_event max_wait # map (\<lambda>h. EvAttach (shm_key h)) olds @ [EvUnlock, EvNotifyAll] @
          concat (map (\<lambda>(h, ok). [EvRemove (shm_key h) ok, EvWaitForDetach (shm_key h),
                  EvReleaseKey (shm_key h)]) (zip olds oks))"
        and detached: "\<forall>h \<in> set olds. readers_detach env (shm_key h)"
        and flags: "\<forall>p \<in> set (zip olds oks). snd p \<longrightarrow> remove_succeeds env (shm_key (fst p))"
        and keys: "distinct (map fst handles) \<and> [] \<notin> fst ` set handles \<longrightarrow>
              map shm_key olds = replaced_keys (shared_register w) handles"
        and segs: "\<forall>key. segments w' key =
              (if key \<in> shm_key ` set olds \<and> remove_succeeds env key then None
               else segments w key)"
      by blast
    from t tr have es: "es = lock_event max_wait # map (\<lambda>h. EvAttach (shm_key h)) olds @
                [EvUnlock, EvNotifyAll] @
                concat (map (\<lambda>(h, ok). [EvRemove (shm_key h) ok, EvWaitForDetach (shm_key h),
                  EvReleaseKey (shm_key h)]) (zip olds oks))"
      by simp
    have "length oks = length olds \<and>
           es = lock_event max_wait # map (\<lambda>h. EvAttach (shm_key h)) olds @
                [EvUnlock, EvNotifyAll] @
                concat (map (\<lambda>(h, ok). [EvRemove (shm_key h) ok, EvWaitForDetach (shm_key h),
                  EvReleaseKey (shm_key h)]) (zip olds oks)) \<and>
           (\<forall>h \<in> set olds. readers_detach env (shm_key h)) \<and>
           (\<forall>p \<in> set (zip olds oks). snd p \<longrightarrow> remove_succeeds env (shm_key (fst p))) \<and>
           (distinct (map fst handles) \<and> [] \<notin> fst ` set handles \<longrightarrow>
              map shm_key olds = replaced_keys (shared_register w) handles) \<and>
           (\<forall>key. segments w' key =
              (if key \<in> shm_key ` set olds \<and> remove_succeeds env key then None
               else segments w key))"
      by (intro conjI) (rule len es detached flags keys segs)+
    then show "\<exists>(old_handles :: RegionHandle list) oks. length oks = length old_handles \<and>
           es = lock_event max_wait # map (\<lambda>h. EvAttach (shm_key h)) old_handles @
                [EvUnlock, EvNotifyAll] @
                concat (map (\<lambda>(h, ok). [EvRemove (shm_key h) ok, EvWaitForDetach (shm_key h),
                  EvReleaseKey (shm_key h)]) (zip old_handles oks)) \<and>
           (\<forall>h \<in> set old_handles. readers_detach env (shm_key h)) \<and>
           (\<forall>p \<in> set (zip old_handles oks). snd p \<longrightarrow> remove_succeeds env (shm_key (fst p))) \<and>
           (distinct (map fst handles) \<and> [] \<notin> fst ` set handles \<longrightarrow>
              map shm_key old_handles = replaced_keys (shared_register w) handles) \<and>
           (\<forall>key. segments w' key =
              (if key \<in> shm_key ` set old_handles \<and> remove_succeeds env key then None
               else segments w key))"
      by (intro exI [of _ olds] exI [of _ oks])
  qed
  from rel have len: "length (shm_key_in_use (shared_register w')) =
      length (shm_key_in_use (shared_register w))"
    and in_use: "\<forall>i < length (shm_key_in_use (shared_register w)).
        shm_key_in_use (shared_register w') ! i =
          (shm_key_in_use (shared_register w) ! i \<and>
           i \<notin> unat ` {key. EvReleaseKey key \<in> set es})"
    by blast+
  show ?thesis
    by (rule exI [of _ es], intro conjI) (rule tr order len in_use success)+
qed

text \<open>
  The second publish of \<open>alpha/static\<close>: key 0 is retired, after its readers have detached,
  its segment is gone and its key is free again; key 1 stays in use.
\<close>

theorem retire_order_witness:
  "fst (swapData free_env second_world second_handles (- 1)) = Returns True \<and>
   trace (snd (swapData free_env second_world second_handles (- 1))) =
     trace second_world @
     [EvLock, EvAttach 0, EvUnlock, EvNotifyAll, EvRemove 0 True, EvWaitForDetach 0, EvReleaseKey 0] \<and>
   readers_detach free_env 0 \<and>
   (\<exists>pre' ok. [EvLock, EvAttach 0, EvUnlock, EvNotifyAll, EvRemove 0 True, EvWaitForDetach 0] =
        pre' @ [EvRemove 0 ok, EvWaitForDetach 0]) \<and>
   shm_key_in_use (shared_register second_world) = [True, True] \<and>
   shm_key_in_use (shared_register (snd (swapData free_env second_world second_handles (- 1)))) =
     [False, True] \<and>
   segments second_world 0 = Some empty_segment \<and>
   segments (snd (swapData free_env second_world second_handles (- 1))) 0 = None \<and>
   segments (snd (swapData free_env second_world second_handles (- 1))) 1 = Some empty_segment"
proof -
  let ?run = "swapData free_env second_world second_handles (- 1)"
  have run: "?run = (fst ?run, snd ?run)" by simp
  have tr: "trace (snd ?run) = trace second_world @
     [EvLock, EvAttach 0, EvUnlock, EvNotifyAll, EvRemove 0 True, EvWaitForDetach 0, EvReleaseKey 0]"
    using second_publish by (simp add: second_world_def)
  from retire_order [OF run] obtain es where es: "trace (snd ?run) = trace second_world @ es"
    and order: "\<forall>pre post key. es = pre @ EvReleaseKey key # post \<longrightarrow>
        readers_detach free_env key \<and>
        (\<exists>pre' ok. pre = pre' @ [EvRemove key ok, EvWaitForDetach key])"
    by blast
  from es tr have "es = [EvLock, EvAttach 0, EvUnlock, EvNotifyAll, EvRemove 0 True,
      EvWaitForDetach 0] @ EvReleaseKey 0 # []" by simp
  with order have "readers_detach free_env 0 \<and>
     (\<exists>pre' ok. [EvLock, EvAttach 0, EvUnlock, EvNotifyAll, EvRemove 0 True,
      EvWaitForDetach 0] = pre' @ [EvRemove 0 ok, EvWaitForDetach 0])" by blast
  moreover have "shm_key_in_use (shared_register second_world) = [True, True]"
    "segments second_world 0 = Some empty_segment"
    by (simp_all add: second_world_def)
  moreover have "segments (snd ?run) 0 = None" "segments (snd ?run) 1 = Some empty_segment"
    by (simp_all add: free_env_def second_world_def second_handles_def swap_defs)
  ultimately show ?thesis using second_publish tr by blast
qed

subsection \<open>Storage::Run and setupRegion\<close>

lemma readBlocks_example_archive:
  "readBlocks example_archive layout =
     Inr (SetBlock ''/common/names/blocks'' \<lparr> num_entries = 4, byte_size = 64 \<rparr> layout)"
  by (simp add: readBlocks_def example_archive_def Let_def rfind_def upt_rec)

lemma readBlocks_updatable_archive:
  "readBlocks updatable_archive layout =
     Inr (SetBlock ''/common/segment_data/index'' \<lparr> num_entries = 8, byte_size = 32 \<rparr> layout)"
  by (simp add: readBlocks_def updatable_archive_def Let_def rfind_def upt_rec)

lemma files_example_static:
  "suffix \<notin> set updatable_suffixes \<Longrightarrow> files example_config suffix = Some example_archive"
  by (simp add: example_config_def)

lemma files_example_updatable:
  "suffix \<in> set updatable_suffixes \<Longrightarrow> files example_config suffix = Some updatable_archive"
  by (simp add: example_config_def)

lemma PopulateStaticLayout_example:
  "PopulateStaticLayout example_config [] = Inr example_static_layout"
  by (simp add: PopulateStaticLayout_def Let_def files_example_static updatable_suffixes_def
        readBlocks_example_archive make_block_char_def example_static_layout_def
        REQUIRED_def OPTIONAL_def)
    (simp add: example_config_def)

lemma PopulateUpdatableLayout_example:
  "PopulateUpdatableLayout example_config [] =
     Inr [(''/common/segment_data/index'', \<lparr> num_entries = 8, byte_size = 32 \<rparr>)]"
  by (simp add: PopulateUpdatableLayout_def Let_def files_example_updatable updatable_suffixes_def
        readBlocks_updatable_archive REQUIRED_def OPTIONAL_def)

lemma files_example_Some: "\<exists>a. files example_config suffix = Some a \<and> connectivity_checksum a = 0"
  by (simp add: example_config_def updatable_archive_def example_archive_def)

lemma readArtifact_example:
  "readArtifact example_config layout suffix block payload =
     (Inr (), payload @ [(suffix, block, view_blocks layout block)])"
  using files_example_Some [of suffix] by (auto simp: readArtifact_def)

lemma readOptional_example:
  "readOptional example_config layout suffix block payload =
     (Inr (), payload @ [(suffix, block, view_blocks layout block)])"
  using files_example_Some [of suffix] by (auto simp: readOptional_def)

lemma checksum_of_example: "checksum_of example_config suffix = 0"
  using files_example_Some [of suffix] by (auto simp: checksum_of_def)

lemma readCheckedGraph_example:
  "readCheckedGraph example_config layout suffix block 0 payload =
     (Inr (), payload @ [(suffix, block, view_blocks layout block)])"
  using files_example_Some [of suffix] by (auto simp: readCheckedGraph_def)

lemma weight_name_example: "weight_name example_config = ''duration''"
  by (simp add: example_config_def)

lemma payload_example:
  "PopulateStaticData_payload example_config example_static_layout = (Inr (), example_payload)"
  by (simp add: PopulateStaticData_payload_def and_then_def readArtifact_example
        readOptional_example checksum_of_example readCheckedGraph_example example_payload_def Let_def
        weight_name_example view_blocks_def example_static_layout_def)

lemma new_register_4:
  "new_register 4 =
     \<lparr> regions = [empty_region, empty_region, empty_region, empty_region],
       shm_key_in_use = [False, False, False, False] \<rparr>"
  by (simp add: new_register_def numeral_eq_Suc)

lemmas setup_defs = setupRegion_def ReserveKey_def emit_def RegionExists_def
  makeSharedMemory_create_def Remove_def free_env_def held_env_def boot_world_def new_register_4
  example_static_layout_def Let_def

lemma setup_first:
  "fst (setupRegion free_env example_static_layout boot_world) =
     Inr \<lparr> memory = 0, data_ptr = Some 72, shm_key = 0 \<rparr>"
  by (simp add: setup_defs)

lemmas run_defs = Run_def PopulateStaticLayout_example
  payload_example [unfolded example_static_layout_def] PopulateStaticData_def
  write_payload_def setup_defs swap_defs EXIT_SUCCESS_def

lemma run_ok:
  "fst (Run free_env example_config boot_world (- 1) ''alpha'') = Returns 0"
  by (simp add: run_defs)

text \<open>Whenever \<open>Run\<close> returns at all, it returns \<open>EXIT_SUCCESS\<close>.\<close>

lemma Run_returns_EXIT_SUCCESS:
  "fst (Run env config w max_wait dataset_name) = Returns code \<Longrightarrow> code = EXIT_SUCCESS"
  by (auto simp: Run_def Let_def split: sum.splits prod.splits outcome.splits)

text \<open>
  What the failure path of \<open>swapData\<close> does hold to: it returns false and leaves the
  register as it found it, the keys in use included.
\<close>

lemma swapData_timeout_register:
  assumes "max_wait \<ge> 0 \<and> \<not> timed_lock env (nat max_wait)"
  shows "fst (swapData env w handles max_wait) = Returns False \<and>
         shared_register (snd (swapData env w handles max_wait)) = shared_register w"
  by (simp add: swapData_timeout [OF assms] fold_Remove_register)

text \<open>
  C3. \<open>Run\<close> discards what \<open>swapData\<close> returns and ends with \<open>EXIT_SUCCESS\<close>. With the
  monitor mutex held by another process and \<open>max_wait = 0\<close> the lock is not acquired,
  \<open>swapData\<close> takes its failure path (the trace shows the failed timed lock and the
  removal of the two new segments), and the exit code is 0 all the same.
\<close>

theorem Run_timeout_exit_code:
  "\<not> timed_lock held_env (nat 0) \<and>
   fst (Run held_env example_config boot_world 0 ''alpha'') = Returns EXIT_SUCCESS \<and>
   EXIT_SUCCESS = 0 \<and>
   trace (snd (Run held_env example_config boot_world 0 ''alpha'')) =
     [EvReserveKey 0, EvRegionExists 0 False, EvCreate 0 161,
      EvReserveKey 1, EvRegionExists 1 False, EvCreate 1 161,
      EvTimedLock 0 False, EvRemove 0 True, EvRemove 1 True]"
  by (simp add: run_defs)

text \<open>
  C2. On the same input the two new segments are removed and no entry of the register is
  touched, but \<open>ReleaseKey\<close> is never called: the keys 0 and 1 that \<open>setupRegion\<close>
  reserved stay in use, so the register after the failed publish is not the register before
  it.
\<close>

theorem Run_timeout_keys_stay_reserved:
  "shm_key_in_use (shared_register boot_world) = [False, False, False, False] \<and>
   shm_key_in_use (shared_register (snd (Run held_env example_config boot_world 0 ''alpha''))) =
     [True, True, False, False] \<and>
   regions (shared_register (snd (Run held_env example_config boot_world 0 ''alpha''))) =
     regions (shared_register boot_world) \<and>
   segments (snd (Run held_env example_config boot_world 0 ''alpha'')) 0 = None \<and>
   segments (snd (Run held_env example_config boot_world 0 ''alpha'')) 1 = None \<and>
   EvReleaseKey 0 \<notin> set (trace (snd (Run held_env example_config boot_world 0 ''alpha''))) \<and>
   EvReleaseKey 1 \<notin> set (trace (snd (Run held_env example_config boot_world 0 ''alpha'')))"
  by (simp add: run_defs)

text \<open>
  With the mismatching hsgr artifact the populate throws after it has written the file index
  path, the fourteen artifacts before hsgr, and hsgr itself.
\<close>

lemma payload_mismatch:
  "PopulateStaticData_payload mismatch_config example_static_layout =
     (Inl (ChecksumMismatch ''.osrm.hsgr''), take 16 example_payload)"
  by (simp add: PopulateStaticData_payload_def and_then_def readArtifact_def readOptional_def
        checksum_of_def readCheckedGraph_def Let_def mismatch_config_def example_config_def
        updatable_suffixes_def updatable_archive_def example_archive_def example_payload_def
        view_blocks_def example_static_layout_def)

lemma PopulateStaticLayout_mismatch:
  "PopulateStaticLayout mismatch_config [] = Inr example_static_layout"
  by (simp add: PopulateStaticLayout_def Let_def mismatch_config_def files_example_static
        updatable_suffixes_def readBlocks_example_archive make_block_char_def
        example_static_layout_def REQUIRED_def OPTIONAL_def)
    (simp add: example_config_def)

text \<open>
  C5. With an hsgr artifact whose connectivity checksum differs from that of the edges,
  \<open>Run\<close> ends with the checksum exception before any entry of the register is touched,
  but nothing is rolled back: the segment allocated for the static region is still there,
  with everything that was written into it before the throw, its key is still reserved, and
  the trace has neither a removal nor a release.
\<close>

theorem Run_checksum_mismatch_leaks:
  "fst (Run free_env mismatch_config boot_world (- 1) ''alpha'') =
     Throws (ChecksumMismatch ''.osrm.hsgr'') \<and>
   regions (shared_register (snd (Run free_env mismatch_config boot_world (- 1) ''alpha''))) =
     regions (shared_register boot_world) \<and>
   shm_key_in_use (shared_register boot_world) = [False, False, False, False] \<and>
   shm_key_in_use (shared_register (snd (Run free_env mismatch_config boot_world (- 1) ''alpha''))) =
     [True, False, False, False] \<and>
   RegionExists (snd (Run free_env mismatch_config boot_world (- 1) ''alpha'')) 0 \<and>
   trace (snd (Run free_env mismatch_config boot_world (- 1) ''alpha'')) =
     [EvReserveKey 0, EvRegionExists 0 False, EvCreate 0 161] \<and>
   segments (snd (Run free_env mismatch_config boot_world (- 1) ''alpha'')) 0 =
     Some \<lparr> seg_size = 161, seg_layout = example_static_layout,
            seg_payload = take 16 example_payload \<rparr>"
  by (simp add: Run_def PopulateStaticLayout_mismatch
        payload_mismatch [unfolded example_static_layout_def] PopulateStaticData_def
        write_payload_def setup_defs swap_defs)

text \<open>
  C1. \<open>Run\<close> builds the layout of the updatable region with \<open>PopulateStaticLayout\<close> and
  fills it with \<open>PopulateStaticData\<close>: the segment registered as \<open>alpha/updatable\<close>
  carries the layout of the static artifacts and the static payload, not the layout that
  \<open>PopulateUpdatableLayout\<close> builds from the updatable artifacts.
\<close>

theorem Run_updatable_region_gets_static_layout:
  "fst (Run free_env example_config boot_world (- 1) ''alpha'') = Returns 0 \<and>
   regions (shared_register (snd (Run free_env example_config boot_world (- 1) ''alpha''))) =
     [\<lparr> region_name = ''alpha/static'', region_shm_key = 0, timestamp = 0 \<rparr>,
      \<lparr> region_name = ''alpha/updatable'', region_shm_key = 1, timestamp = 0 \<rparr>,
      empty_region, empty_region] \<and>
   segments (snd (Run free_env example_config boot_world (- 1) ''alpha'')) 1 =
     Some \<lparr> seg_size = 161, seg_layout = example_static_layout, seg_payload = example_payload \<rparr> \<and>
   PopulateStaticLayout example_config [] = Inr example_static_layout \<and>
   PopulateStaticData_payload example_config example_static_layout = (Inr (), example_payload) \<and>
   PopulateUpdatableLayout example_config [] =
     Inr [(''/common/segment_data/index'', \<lparr> num_entries = 8, byte_size = 32 \<rparr>)] \<and>
   example_static_layout \<noteq> [(''/common/segment_data/index'', \<lparr> num_entries = 8, byte_size = 32 \<rparr>)]"
  by (simp add: run_defs PopulateUpdatableLayout_example)

text \<open>
  What \<open>setupRegion\<close> does with a segment that is still live at the freshly reserved key:
  one call of \<open>Remove\<close>, and then the allocation, whatever the removal did.
\<close>

lemma setupRegion_stale_segment:
  assumes "ReserveKey (shared_register w) = Inr (key, reg)" and "RegionExists w key"
  shows "(remove_succeeds env key \<longrightarrow>
            fst (setupRegion env layout w) =
              Inr \<lparr> memory = key, data_ptr = Some (encoded_layout_size env layout), shm_key = key \<rparr> \<and>
            trace (snd (setupRegion env layout w)) =
              trace w @ [EvReserveKey key, EvRegionExists key True, EvRemove key True,
                EvCreate key (encoded_layout_size env layout + GetSizeOfLayout env layout)] \<and>
            segments (snd (setupRegion env layout w)) key =
              Some \<lparr> seg_size = encoded_layout_size env layout + GetSizeOfLayout env layout,
                     seg_layout = layout, seg_payload = [] \<rparr>) \<and>
         (\<not> remove_succeeds env key \<longrightarrow>
            fst (setupRegion env layout w) = Inl SharedMemoryError \<and>
            trace (snd (setupRegion env layout w)) =
              trace w @ [EvReserveKey key, EvRegionExists key True, EvRemove key False] \<and>
            segments (snd (setupRegion env layout w)) key = segments w key)"
  using assms
  by (simp add: setupRegion_def emit_def RegionExists_def makeSharedMemory_create_def Remove_def
        Let_def)

text \<open>
  C7. \<open>setupRegion\<close> is to ensure that the region it wants to write to is really removed.
  It calls \<open>Remove\<close> once, drops what \<open>Remove\<close> returns, and goes on to the allocation.
  With a segment left behind under key 0 and a system that refuses the removal, the trace has
  the one failed removal and no second attempt; the stale segment is still in place, with
  its old size, when the allocation is reached, so the call does not return a handle; and key
  0, reserved at the start, stays reserved.
\<close>

theorem setupRegion_stale_removal_not_retried:
  "RegionExists stale_world 0 \<and>
   \<not> remove_succeeds stubborn_env 0 \<and>
   shm_key_in_use (shared_register stale_world) = [False, False, False, False] \<and>
   trace (snd (setupRegion stubborn_env [] stale_world)) =
     [EvReserveKey 0, EvRegionExists 0 True, EvRemove 0 False] \<and>
   RegionExists (snd (setupRegion stubborn_env [] stale_world)) 0 \<and>
   segments (snd (setupRegion stubborn_env [] stale_world)) 0 = Some empty_segment \<and>
   fst (setupRegion stubborn_env [] stale_world) = Inl SharedMemoryError \<and>
   shm_key_in_use (shared_register (snd (setupRegion stubborn_env [] stale_world))) =
     [True, False, False, False]"
  by (simp add: stale_world_def stubborn_env_def setup_defs)

end
